theory Spec2Isabelle
  imports
    Complex_Main
    "HOL-Library.Word"
    "HOL-Library.Monad_Syntax"
    "HOL-Library.Signed_Division"
begin

unbundle bit_operations_syntax

section \<open>The terminal plot engine of tuipe (internal/stats/plot.go)\<close>

text \<open>
  Conventions of the embedding.
  \<^item> Go's \<open>int\<close> is \<open>int\<close>; no index or dot coordinate of the engine comes near 64 bits.
  \<^item> Go's \<open>float64\<close> is \<open>real\<close>: sums, products and quotients are the exact ones, and NaN and
    the infinities do not exist.  \<open>int(f)\<close> truncates towards zero (\<open>go_int\<close>),
    \<open>math.Round\<close> rounds halves away from zero (\<open>math_Round\<close>).
  \<^item> Go's \<open>/\<close> and \<open>%\<close> on \<open>int\<close> truncate towards zero: \<open>sdiv\<close> and \<open>smod\<close>.
  \<^item> A Go string is its sequence of bytes: \<open>string\<close>, a \<open>char list\<close>.  A rune is written in
    UTF-8 (\<open>utf8_EncodeRune\<close>).
  \<^item> A run-time panic (index or slice bounds out of range, a negative length given to
    \<open>make\<close>) and a loop that never ends are the value \<open>None\<close> of an \<open>option\<close>.
\<close>

subsection \<open>Go primitives\<close>

definition go_int :: "real \<Rightarrow> int" where
  "go_int x = (if 0 \<le> x then \<lfloor>x\<rfloor> else \<lceil>x\<rceil>)"

definition math_Floor :: "real \<Rightarrow> real" where
  "math_Floor x = real_of_int \<lfloor>x\<rfloor>"

definition math_Round :: "real \<Rightarrow> real" where
  "math_Round x = (if 0 \<le> x then real_of_int \<lfloor>x + 1 / 2\<rfloor> else - real_of_int \<lfloor>- x + 1 / 2\<rfloor>)"

text \<open>\<open>xs[i]\<close> and \<open>xs[lo:hi]\<close>, which panic out of range.\<close>

definition index :: "'a list \<Rightarrow> int \<Rightarrow> 'a option" where
  "index xs i = (if 0 \<le> i \<and> i < int (length xs) then Some (xs ! nat i) else None)"

definition slice :: "'a list \<Rightarrow> int \<Rightarrow> int \<Rightarrow> 'a list option" where
  "slice xs lo hi =
     (if 0 \<le> lo \<and> lo \<le> hi \<and> hi \<le> int (length xs)
      then Some (take (nat (hi - lo)) (drop (nat lo) xs)) else None)"

subsection \<open>Data\<close>

record Series =
  Name :: string
  Values :: "real list"

record seriesMinMaxRange =
  min_r :: real
  max_r :: real

record lineStyle =
  style_name :: string
  period :: int
  on :: int

record ansiColor =
  color_name :: string
  code :: string

definition defaultPlotHeight :: int where "defaultPlotHeight = 10"
definition minPlotWidth :: int where "minPlotWidth = 10"
definition axisLabelTop :: string where "axisLabelTop = ''100%''"
definition axisLabelMid :: string where "axisLabelMid = ''50%''"
definition axisLabelBottom :: string where "axisLabelBottom = ''0%''"
definition scaleNote :: string where "scaleNote = ''Scaled per series; see min/max below.''"
definition terminalWidthBackup :: int where "terminalWidthBackup = 80"

definition ESC :: char where "ESC = CHR 0x1B"

definition colorReset :: string where "colorReset = ESC # ''[0m''"

text \<open>
  The separator, byte for byte as the string literal stands in \<open>plot.go\<close>: a space, the
  three runes U+00E2, U+201D and U+201A (eight bytes in UTF-8), a space.
\<close>

definition axisSeparator :: string where
  "axisSeparator =
     [CHR 0x20, CHR 0xC3, CHR 0xA2, CHR 0xE2, CHR 0x80, CHR 0x9D, CHR 0xE2, CHR 0x80, CHR 0x9A, CHR 0x20]"

definition lineStyles :: "lineStyle list" where
  "lineStyles =
     [\<lparr>style_name = ''solid'', period = 1, on = 1\<rparr>,
      \<lparr>style_name = ''dashed'', period = 6, on = 3\<rparr>,
      \<lparr>style_name = ''dotted'', period = 4, on = 1\<rparr>,
      \<lparr>style_name = ''dashdot'', period = 8, on = 3\<rparr>]"

definition colorPalette :: "ansiColor list" where
  "colorPalette =
     [\<lparr>color_name = ''cyan'', code = ESC # ''[36m''\<rparr>,
      \<lparr>color_name = ''magenta'', code = ESC # ''[35m''\<rparr>,
      \<lparr>color_name = ''yellow'', code = ESC # ''[33m''\<rparr>,
      \<lparr>color_name = ''green'', code = ESC # ''[32m''\<rparr>,
      \<lparr>color_name = ''blue'', code = ESC # ''[34m''\<rparr>]"

subsection \<open>resampleSeries\<close>

text \<open>
  The bounds of block \<open>i\<close> of the downsampling loop, for an input of \<open>n\<close> values:
  \<open>start\<close> and \<open>end\<close> as the loop body computes them, guard and cap included.
\<close>

definition resampleSeries_block :: "int \<Rightarrow> int \<Rightarrow> int \<Rightarrow> int \<times> int" where
  "resampleSeries_block n width i =
     (let start = go_int (real_of_int i * real_of_int n / real_of_int width);
          end0 = go_int (real_of_int (i + 1) * real_of_int n / real_of_int width);
          end1 = (if end0 \<le> start then start + 1 else end0);
          end2 = (if end1 > n then n else end1)
      in (start, end2))"

text \<open>One pass of the downsampling loop: \<open>out[i]\<close>.\<close>

definition resampleSeries_down :: "real list \<Rightarrow> int \<Rightarrow> int \<Rightarrow> real option" where
  "resampleSeries_down values width i =
     (case resampleSeries_block (int (length values)) width i of
        (start, end2) \<Rightarrow>
          do {
            blk \<leftarrow> slice values start end2;
            Some (foldl (+) 0 blk / real_of_int (end2 - start))
          })"

text \<open>One pass of the interpolation loop: \<open>out[i]\<close>.\<close>

definition resampleSeries_up :: "real list \<Rightarrow> int \<Rightarrow> int \<Rightarrow> real option" where
  "resampleSeries_up values width i =
     (let n = int (length values);
          pos = real_of_int i * real_of_int (n - 1) / real_of_int (width - 1);
          idx0 = go_int (math_Floor pos);
          idx = (if idx0 < 0 then 0 else idx0)
      in if idx \<ge> n - 1 then index values (n - 1)
         else do {
           a \<leftarrow> index values idx;
           b \<leftarrow> index values (idx + 1);
           Some (a * (1 - (pos - real_of_int idx)) + b * (pos - real_of_int idx))
         })"

definition resampleSeries :: "real list \<Rightarrow> int \<Rightarrow> real list option" where
  "resampleSeries values width =
     (let n = int (length values) in
      if n = 0 \<or> width \<le> 0 then Some []
      else if n = width then Some values
      else if n > width then
        those (map (\<lambda>i. resampleSeries_down values width (int i)) [0..<nat width])
      else if width = 1 then do { v \<leftarrow> index values 0; Some [v] }
      else if n = 1 then do { v \<leftarrow> index values 0; Some (replicate (nat width) v) }
      else those (map (\<lambda>i. resampleSeries_up values width (int i)) [0..<nat width]))"

subsection \<open>More Go primitives: stores, loops that may panic, strings\<close>

text \<open>\<open>xs[i] = v\<close>, which panics out of range.\<close>

definition store :: "'a list \<Rightarrow> int \<Rightarrow> 'a \<Rightarrow> 'a list option" where
  "store xs i v = (if 0 \<le> i \<and> i < int (length xs) then Some (xs[nat i := v]) else None)"

text \<open>A \<open>for ... range\<close> loop over \<open>xs\<close> whose body may panic.\<close>

fun foldM :: "('a \<Rightarrow> 's \<Rightarrow> 's option) \<Rightarrow> 'a list \<Rightarrow> 's \<Rightarrow> 's option" where
  "foldM f [] s = Some s"
| "foldM f (x # xs) s = (case f x s of None \<Rightarrow> None | Some s' \<Rightarrow> foldM f xs s')"

text \<open>
  \<open>utf8.EncodeRune\<close>: the bytes of a rune (a Go \<open>int32\<close>); a negative value, a surrogate
  or a value beyond U+10FFFF is written as U+FFFD.
\<close>

definition utf8_EncodeRune :: "int \<Rightarrow> string" where
  "utf8_EncodeRune r =
     (if r < 0 then [CHR 0xEF, CHR 0xBF, CHR 0xBD]
      else if r < 0x80 then [char_of r]
      else if r < 0x800 then [char_of (0xC0 + r div 64), char_of (0x80 + r mod 64)]
      else if (0xD800 \<le> r \<and> r < 0xE000) \<or> 0x10FFFF < r then [CHR 0xEF, CHR 0xBF, CHR 0xBD]
      else if r < 0x10000 then
        [char_of (0xE0 + r div 4096), char_of (0x80 + r div 64 mod 64), char_of (0x80 + r mod 64)]
      else
        [char_of (0xF0 + r div 262144), char_of (0x80 + r div 4096 mod 64),
         char_of (0x80 + r div 64 mod 64), char_of (0x80 + r mod 64)])"

text \<open>\<open>utf8.RuneCountInString\<close> on well-formed UTF-8: the bytes that do not continue a rune.\<close>

definition utf8_RuneCountInString :: "string \<Rightarrow> int" where
  "utf8_RuneCountInString s = int (length (filter (\<lambda>c. of_char c div (64::int) \<noteq> 2) s))"

text \<open>\<open>strings.Join\<close>.\<close>

fun strings_Join :: "string list \<Rightarrow> string \<Rightarrow> string" where
  "strings_Join [] sep = []"
| "strings_Join [x] sep = x"
| "strings_Join (x # y # ys) sep = x @ sep @ strings_Join (y # ys) sep"

text \<open>The verb \<open>%*s\<close> of package fmt: the string, padded with spaces on the left to a width in runes.\<close>

definition fmt_pad :: "int \<Rightarrow> string \<Rightarrow> string" where
  "fmt_pad n s = replicate (nat (n - utf8_RuneCountInString s)) (CHR 0x20) @ s"

text \<open>The verb \<open>%d\<close> on a number that is not negative.\<close>

function fmt_d :: "int \<Rightarrow> string" where
  "fmt_d n = (if n < 10 then [char_of (48 + n)] else fmt_d (n div 10) @ [char_of (48 + n mod 10)])"
  by pat_completeness auto
termination
  by (relation "measure nat") auto

declare fmt_d.simps [simp del]

text \<open>
  The verb \<open>%.2f\<close>: the value rounded to hundredths, ties to the even hundredth, with a
  minus sign for a negative value.
\<close>

definition round_half_even :: "real \<Rightarrow> int" where
  "round_half_even x =
     (let f = \<lfloor>x\<rfloor>; d = x - real_of_int f
      in if d < 1 / 2 then f else if 1 / 2 < d then f + 1 else if even f then f else f + 1)"

definition fmt_f2 :: "real \<Rightarrow> string" where
  "fmt_f2 x =
     (let q = round_half_even (\<bar>x\<bar> * 100)
      in (if x < 0 then [CHR 0x2D] else []) @ fmt_d (q div 100) @ [CHR 0x2E]
         @ [char_of (48 + q div 10 mod 10), char_of (48 + q mod 10)])"

subsection \<open>The environment and the output sink\<close>

text \<open>
  What a call reads from outside: the value of the environment variable \<open>NO_COLOR\<close> (empty
  when unset) and the width that \<open>term.GetSize\<close> reports for standard output (\<open>None\<close> when
  it returns an error).
\<close>

record env =
  NO_COLOR :: string
  stdout_width :: "int option"

text \<open>
  The \<open>io.Writer\<close>: whether it is an \<open>*os.File\<close>, whether \<open>term.IsTerminal\<close> holds of it,
  the bytes it has accepted, the number of \<open>Write\<close> calls made so far, and which calls
  (by number) return an error.
\<close>

record writer =
  is_os_File :: bool
  is_Terminal :: bool
  written :: string
  calls :: nat
  fails :: "nat \<Rightarrow> bool"

datatype error = WriteError

text \<open>\<open>fmt.Fprint\<close> and \<open>fmt.Fprintln\<close> of one string: one \<open>Write\<close> call.\<close>

definition Fprint :: "writer \<Rightarrow> string \<Rightarrow> writer \<times> error option" where
  "Fprint w s =
     (if fails w (calls w) then (w\<lparr>calls := Suc (calls w)\<rparr>, Some WriteError)
      else (w\<lparr>written := written w @ s, calls := Suc (calls w)\<rparr>, None))"

definition Fprintln :: "writer \<Rightarrow> string \<Rightarrow> writer \<times> error option" where
  "Fprintln w s = Fprint w (s @ [CHR 0x0A])"

text \<open>
  \<open>if _, err := ...; err != nil { return err }\<close> followed by the rest of the function:
  the rest runs when the step neither panicked nor returned an error.
\<close>

definition andThen ::
  "(writer \<times> error option) option \<Rightarrow> (writer \<Rightarrow> (writer \<times> error option) option)
   \<Rightarrow> (writer \<times> error option) option" where
  "andThen r k =
     (case r of None \<Rightarrow> None | Some (w, Some err) \<Rightarrow> Some (w, Some err) | Some (w, None) \<Rightarrow> k w)"

text \<open>A loop whose body builds a line (which may panic) and writes it.\<close>

fun writeEach ::
  "('a \<Rightarrow> writer \<Rightarrow> (writer \<times> error option) option) \<Rightarrow> 'a list \<Rightarrow> writer
   \<Rightarrow> (writer \<times> error option) option" where
  "writeEach f [] w = Some (w, None)"
| "writeEach f (x # xs) w = andThen (f x w) (writeEach f xs)"

subsection \<open>Widths, colour, axis labels, cells\<close>

definition filterSeries :: "Series list \<Rightarrow> Series list" where
  "filterSeries series = fold (\<lambda>s out. if length (Values s) = 0 then out else out @ [s]) series []"

definition maxSeriesLen :: "Series list \<Rightarrow> int" where
  "maxSeriesLen series =
     fold (\<lambda>s maxLen. if int (length (Values s)) > maxLen then int (length (Values s)) else maxLen)
       series 0"

definition PlotWidthFor :: "int \<Rightarrow> int" where
  "PlotWidthFor totalWidth =
     (if totalWidth \<le> 0 then minPlotWidth
      else
        let axisWidth = utf8_RuneCountInString axisLabelTop + utf8_RuneCountInString axisSeparator;
            plotWidth = totalWidth - axisWidth;
            plotWidth1 = (if plotWidth < minPlotWidth then minPlotWidth else plotWidth)
        in if plotWidth1 < 1 then 1 else plotWidth1)"

definition terminalWidth :: "env \<Rightarrow> int" where
  "terminalWidth e =
     (case stdout_width e of
        None \<Rightarrow> terminalWidthBackup
      | Some width \<Rightarrow> if width \<le> 0 then terminalWidthBackup else width)"

definition autoPlotWidth :: "env \<Rightarrow> int" where
  "autoPlotWidth e = PlotWidthFor (terminalWidth e)"

definition shouldUseColor :: "env \<Rightarrow> writer \<Rightarrow> bool \<Rightarrow> bool" where
  "shouldUseColor e w force =
     (if NO_COLOR e \<noteq> [] then False
      else if force then True
      else if \<not> is_os_File w then False
      else is_Terminal w)"

definition makeAxisLabels :: "int \<Rightarrow> string list option" where
  "makeAxisLabels height =
     (if height < 0 then None
      else
        let labels = replicate (nat height) [] in
        if height \<le> 0 then Some labels
        else do {
          labels1 \<leftarrow> store labels 0 axisLabelTop;
          labels2 \<leftarrow> (if height > 2 then store labels1 (height sdiv 2) axisLabelMid else Some labels1);
          (if height > 1 then store labels2 (height - 1) axisLabelBottom else Some labels2)
        })"

type_synonym cells = "8 word list list"

definition makeCells :: "int \<Rightarrow> int \<Rightarrow> cells option" where
  "makeCells height width =
     (if height < 0 \<or> (0 < height \<and> width < 0) then None
      else Some (replicate (nat height) (replicate (nat width) 0)))"

definition composeCell :: "cells list \<Rightarrow> int \<Rightarrow> int \<Rightarrow> 8 word \<times> int" where
  "composeCell seriesCells x y =
     fold (\<lambda>(i, cells) (mask, colorIdx).
             if y < 0 \<or> y \<ge> int (length cells) then (mask, colorIdx)
             else if x < 0 \<or> x \<ge> int (length (cells ! nat y)) then (mask, colorIdx)
             else
               let cellMask = cells ! nat y ! nat x in
               if cellMask = 0 then (mask, colorIdx)
               else (mask OR cellMask, if colorIdx = - 1 then int i else colorIdx))
       (enumerate 0 seriesCells) (0, - 1)"

definition shouldPlot :: "lineStyle \<Rightarrow> int \<Rightarrow> bool" where
  "shouldPlot ls x =
     (if period ls \<le> 1 then True
      else (if x < 0 then - x else x) smod period ls < on ls)"

subsection \<open>Ranges and rows\<close>

text \<open>
  The loop starts from plus and minus infinity, which no real number is: \<open>None\<close> stands for
  the initial infinity, below which (above which) every value lies.
\<close>

definition seriesMinMaxSingle :: "real list \<Rightarrow> real \<times> real" where
  "seriesMinMaxSingle values =
     (case fold (\<lambda>v (minVal, maxVal).
                   ((case minVal of None \<Rightarrow> Some v | Some m \<Rightarrow> if v < m then Some v else Some m),
                    (case maxVal of None \<Rightarrow> Some v | Some m \<Rightarrow> if v > m then Some v else Some m)))
             values (None, None) of
        (minVal, maxVal) \<Rightarrow>
          ((case minVal of None \<Rightarrow> 0 | Some m \<Rightarrow> m), (case maxVal of None \<Rightarrow> 0 | Some m \<Rightarrow> m)))"

definition valueToRow :: "real \<Rightarrow> real \<Rightarrow> real \<Rightarrow> int \<Rightarrow> int" where
  "valueToRow v minVal maxVal height =
     (if height \<le> 1 then 0
      else
        let pos = (v - minVal) / (maxVal - minVal);
            row = go_int (math_Round ((1 - pos) * real_of_int (height - 1)))
        in if row < 0 then 0 else if row \<ge> height then height - 1 else row)"

subsection \<open>Braille dots\<close>

definition brailleDotMask :: "int \<Rightarrow> int \<Rightarrow> 8 word" where
  "brailleDotMask x y =
     (if x = 0 \<and> y = 0 then 0x01
      else if x = 0 \<and> y = 1 then 0x02
      else if x = 0 \<and> y = 2 then 0x04
      else if x = 0 \<and> y = 3 then 0x40
      else if x = 1 \<and> y = 0 then 0x08
      else if x = 1 \<and> y = 1 then 0x10
      else if x = 1 \<and> y = 2 then 0x20
      else if x = 1 \<and> y = 3 then 0x80
      else 0)"

definition brailleFromMask :: "8 word \<Rightarrow> int" where
  "brailleFromMask m = 0x2800 + uint m"

definition setBrailleDot :: "cells \<Rightarrow> int \<Rightarrow> int \<Rightarrow> cells" where
  "setBrailleDot cells x y =
     (if y < 0 \<or> x < 0 then cells
      else
        let cellY = y sdiv 4; cellX = x sdiv 2 in
        if cellY < 0 \<or> cellY \<ge> int (length cells) then cells
        else if cellX < 0 \<or> cellX \<ge> int (length (cells ! nat cellY)) then cells
        else
          let dotMask = brailleDotMask (x smod 2) (y smod 4) in
          cells[nat cellY := (cells ! nat cellY)[nat cellX := cells ! nat cellY ! nat cellX OR dotMask]])"

subsection \<open>drawLine\<close>

text \<open>
  The loop of \<open>drawLine\<close> after its call of \<open>plot\<close>: \<open>None\<close> is one of the three
  \<open>break\<close>s, \<open>Some\<close> carries \<open>x0\<close>, \<open>y0\<close> and \<open>err\<close> into the next pass.
\<close>

definition drawLine_step ::
  "int \<Rightarrow> int \<Rightarrow> int \<Rightarrow> int \<Rightarrow> int \<Rightarrow> int \<Rightarrow> int \<times> int \<times> int \<Rightarrow> (int \<times> int \<times> int) option" where
  "drawLine_step x1 y1 dx dy sx sy st =
     (case st of (x0, y0, err) \<Rightarrow>
        if x0 = x1 \<and> y0 = y1 then None
        else
          let e2 = 2 * err in
          if e2 \<ge> dy \<and> x0 = x1 then None
          else
            let err1 = (if e2 \<ge> dy then err + dy else err);
                xa = (if e2 \<ge> dy then x0 + sx else x0)
            in
            if e2 \<le> dx \<and> y0 = y1 then None
            else Some (xa, (if e2 \<le> dx then y0 + sy else y0), (if e2 \<le> dx then err1 + dx else err1)))"

text \<open>
  The loop itself threads the state \<open>s\<close> that the callback \<open>plot\<close> updates.  A loop that
  never reaches a \<open>break\<close> has the value \<open>None\<close>.
\<close>

partial_function (option) drawLine_loop ::
  "int \<Rightarrow> int \<Rightarrow> int \<Rightarrow> int \<Rightarrow> int \<Rightarrow> int \<Rightarrow> (int \<Rightarrow> int \<Rightarrow> 's \<Rightarrow> 's) \<Rightarrow> int \<times> int \<times> int \<Rightarrow> 's
   \<Rightarrow> 's option" where
  "drawLine_loop x1 y1 dx dy sx sy plot st s =
     (case drawLine_step x1 y1 dx dy sx sy st of
        None \<Rightarrow> Some (plot (fst st) (fst (snd st)) s)
      | Some st' \<Rightarrow> drawLine_loop x1 y1 dx dy sx sy plot st' (plot (fst st) (fst (snd st)) s))"

declare drawLine_loop.simps [code]

definition drawLine ::
  "int \<Rightarrow> int \<Rightarrow> int \<Rightarrow> int \<Rightarrow> (int \<Rightarrow> int \<Rightarrow> 's \<Rightarrow> 's) \<Rightarrow> 's \<Rightarrow> 's option" where
  "drawLine x0 y0 x1 y1 plot s =
     (let dx = go_int \<bar>real_of_int (x1 - x0)\<bar>;
          sx = (if x0 < x1 then 1 else - 1);
          dy = - go_int \<bar>real_of_int (y1 - y0)\<bar>;
          sy = (if y0 < y1 then 1 else - 1);
          err = dx + dy
      in drawLine_loop x1 y1 dx dy sx sy plot (x0, y0, err) s)"

subsection \<open>renderLegend\<close>

text \<open>The body of the loop of \<open>renderLegend\<close>: the label of series \<open>i\<close>.\<close>

definition renderLegend_label :: "bool \<Rightarrow> nat \<times> Series \<Rightarrow> string option" where
  "renderLegend_label useColor is =
     (case is of (i, s) \<Rightarrow>
        do {
          style \<leftarrow> index lineStyles (int i smod int (length lineStyles));
          let label = utf8_EncodeRune (brailleFromMask 0x01) @ '' '' @ Name s
                        @ '' ('' @ style_name style @ '')'';
          if useColor then
            do {
              color \<leftarrow> index colorPalette (int i smod int (length colorPalette));
              Some (code color @ label @ colorReset)
            }
          else Some label
        })"

definition renderLegend :: "Series list \<Rightarrow> bool \<Rightarrow> string option" where
  "renderLegend series useColor =
     do {
       parts \<leftarrow> those (map (renderLegend_label useColor) (enumerate 0 series));
       Some (''Legend: '' @ strings_Join parts ''  '')
     }"

subsection \<open>plotSeries\<close>

text \<open>The height and the width that \<open>plotSeries\<close> settles on.\<close>

definition plotSeries_height :: "int \<Rightarrow> int" where
  "plotSeries_height height = (if height \<le> 0 then defaultPlotHeight else height)"

definition plotSeries_width :: "env \<Rightarrow> int \<Rightarrow> int" where
  "plotSeries_width e width =
     (let width1 = (if width \<le> 0 then autoPlotWidth e else width);
          width2 = (if width1 < minPlotWidth then minPlotWidth else width1)
      in if width2 < 1 then 1 else width2)"

text \<open>The loop that fills \<open>scaled\<close>.\<close>

definition plotSeries_scaled :: "Series list \<Rightarrow> int \<Rightarrow> Series list option" where
  "plotSeries_scaled series width =
     those (map (\<lambda>s. do {
                        vs \<leftarrow> resampleSeries (Values s) width;
                        Some \<lparr>Name = Name s, Values = vs\<rparr>
                      }) series)"

text \<open>The loop that fills \<open>minMax\<close>.\<close>

definition plotSeries_minMax :: "Series list \<Rightarrow> seriesMinMaxRange list" where
  "plotSeries_minMax scaled =
     map (\<lambda>s. case seriesMinMaxSingle (Values s) of
                 (minVal, maxVal) \<Rightarrow>
                   if \<bar>maxVal - minVal\<bar> < 1 / 10 ^ 9
                   then \<lparr>min_r = minVal - 1, max_r = maxVal + 1\<rparr>
                   else \<lparr>min_r = minVal, max_r = maxVal\<rparr>) scaled"

text \<open>The closure that \<open>plotSeries\<close> hands to \<open>drawLine\<close>, on the dot grid of one series.\<close>

definition plotSeries_plot :: "lineStyle \<Rightarrow> int \<Rightarrow> int \<Rightarrow> cells \<Rightarrow> cells" where
  "plotSeries_plot style dx dy cells = (if shouldPlot style dx then setBrailleDot cells dx dy else cells)"

text \<open>
  The body of the loop over the values of one series; the state is the dot grid of the
  series, \<open>prevX\<close> and \<open>prevY\<close>.
\<close>

definition plotSeries_sample ::
  "lineStyle \<Rightarrow> seriesMinMaxRange \<Rightarrow> int \<Rightarrow> nat \<times> real \<Rightarrow> cells \<times> int \<times> int
   \<Rightarrow> (cells \<times> int \<times> int) option" where
  "plotSeries_sample style mm height xv st =
     (case (xv, st) of
        ((x, v), (cells, prevX, prevY)) \<Rightarrow>
          let row0 = valueToRow v (min_r mm) (max_r mm) (height * 4);
              row1 = (if row0 < 0 then 0 else row0);
              row = (if row1 \<ge> height * 4 then height * 4 - 1 else row1);
              px = int x * 2;
              py = row
          in do {
            cells' \<leftarrow>
              (if prevX \<ge> 0 then drawLine prevX prevY px py (plotSeries_plot style) cells
               else if shouldPlot style px then Some (setBrailleDot cells px py)
               else Some cells);
            Some (cells', px, py)
          })"

text \<open>The body of the loop over the series that draws series \<open>si\<close> into its grid.\<close>

definition plotSeries_series ::
  "seriesMinMaxRange list \<Rightarrow> int \<Rightarrow> nat \<times> Series \<Rightarrow> cells list \<Rightarrow> cells list option" where
  "plotSeries_series minMax height sis seriesCells =
     (case sis of (si, s) \<Rightarrow>
        if length (Values s) = 0 then Some seriesCells
        else do {
          style \<leftarrow> index lineStyles (int si smod int (length lineStyles));
          mm \<leftarrow> index minMax (int si);
          cells \<leftarrow> index seriesCells (int si);
          r \<leftarrow> foldM (plotSeries_sample style mm height) (enumerate 0 (Values s)) (cells, - 1, - 1);
          store seriesCells (int si) (fst r)
        })"

text \<open>The text of the min/max line of series \<open>i\<close>, and the body of the loop that writes it.\<close>

definition plotSeries_rangeText :: "seriesMinMaxRange list \<Rightarrow> nat \<times> Series \<Rightarrow> string option" where
  "plotSeries_rangeText minMax is =
     (case is of (i, s) \<Rightarrow>
        do {
          mm \<leftarrow> index minMax (int i);
          Some (Name s @ '': min='' @ fmt_f2 (min_r mm) @ '' max='' @ fmt_f2 (max_r mm))
        })"

definition plotSeries_rangeLine ::
  "seriesMinMaxRange list \<Rightarrow> nat \<times> Series \<Rightarrow> writer \<Rightarrow> (writer \<times> error option) option" where
  "plotSeries_rangeLine minMax is w =
     do {
       line \<leftarrow> plotSeries_rangeText minMax is;
       Some (Fprint w (line @ [CHR 0x0A]))
     }"

text \<open>What the loop over \<open>x\<close> appends to the row for cell \<open>(x, y)\<close>.\<close>

definition plotSeries_cell :: "cells list \<Rightarrow> bool \<Rightarrow> int \<Rightarrow> int \<Rightarrow> string option" where
  "plotSeries_cell seriesCells useColor x y =
     (case composeCell seriesCells x y of
        (m, colorIdx) \<Rightarrow>
          if useColor \<and> colorIdx \<ge> 0 then
            do {
              color \<leftarrow> index colorPalette (colorIdx smod int (length colorPalette));
              Some (code color @ utf8_EncodeRune (brailleFromMask m) @ colorReset)
            }
          else Some (utf8_EncodeRune (brailleFromMask m)))"

text \<open>The text of data row \<open>y\<close>, and the body of the loop over \<open>y\<close>, which writes it.\<close>

definition plotSeries_rowText ::
  "cells list \<Rightarrow> bool \<Rightarrow> string list \<Rightarrow> int \<Rightarrow> int \<Rightarrow> nat \<Rightarrow> string option" where
  "plotSeries_rowText seriesCells useColor axisLabels leftAxisWidth width y =
     do {
       label \<leftarrow> index axisLabels (int y);
       cs \<leftarrow> those (map (\<lambda>x. plotSeries_cell seriesCells useColor (int x) (int y)) [0..<nat width]);
       Some (fmt_pad leftAxisWidth label @ axisSeparator @ concat cs)
     }"

definition plotSeries_row ::
  "cells list \<Rightarrow> bool \<Rightarrow> string list \<Rightarrow> int \<Rightarrow> int \<Rightarrow> nat \<Rightarrow> writer
   \<Rightarrow> (writer \<times> error option) option" where
  "plotSeries_row seriesCells useColor axisLabels leftAxisWidth width y w =
     do {
       row \<leftarrow> plotSeries_rowText seriesCells useColor axisLabels leftAxisWidth width y;
       Some (Fprintln w row)
     }"

text \<open>The dot grids of all series: the two loops over \<open>scaled\<close> that allocate and draw.\<close>

definition plotSeries_seriesCells ::
  "Series list \<Rightarrow> seriesMinMaxRange list \<Rightarrow> int \<Rightarrow> int \<Rightarrow> cells list option" where
  "plotSeries_seriesCells scaled minMax height width =
     do {
       empty \<leftarrow> those (map (\<lambda>s. makeCells height width) scaled);
       foldM (plotSeries_series minMax height) (enumerate 0 scaled) empty
     }"

definition plotSeries ::
  "env \<Rightarrow> writer \<Rightarrow> string \<Rightarrow> Series list \<Rightarrow> int \<Rightarrow> int \<Rightarrow> bool \<Rightarrow> (writer \<times> error option) option" where
  "plotSeries e w title series0 width0 height0 forceColor =
     (let series = filterSeries series0 in
      if length series = 0 then Some (w, None)
      else if maxSeriesLen series = 0 then Some (w, None)
      else
        let height = plotSeries_height height0;
            width = plotSeries_width e width0
        in do {
          scaled \<leftarrow> plotSeries_scaled series width;
          let minMax = plotSeries_minMax scaled;
          seriesCells \<leftarrow> plotSeries_seriesCells scaled minMax height width;
          let useColor = shouldUseColor e w forceColor;
          let leftAxisWidth = int (length axisLabelTop);
          axisLabels \<leftarrow> makeAxisLabels height;
          andThen (if title \<noteq> [] then Some (Fprintln w title) else Some (w, None)) (\<lambda>w.
          andThen (Some (Fprintln w scaleNote)) (\<lambda>w.
          andThen (writeEach (plotSeries_rangeLine minMax) (enumerate 0 scaled) w) (\<lambda>w.
          andThen (writeEach (plotSeries_row seriesCells useColor axisLabels leftAxisWidth width)
                     [0..<nat height] w) (\<lambda>w.
          andThen (do { legend \<leftarrow> renderLegend scaled useColor; Some (Fprintln w legend) }) (\<lambda>w.
          Some (Fprintln w []))))))
        })"

definition PlotSeries ::
  "env \<Rightarrow> writer \<Rightarrow> string \<Rightarrow> Series list \<Rightarrow> int \<Rightarrow> int \<Rightarrow> (writer \<times> error option) option" where
  "PlotSeries e w title series width height = plotSeries e w title series width height False"

definition PlotSeriesWithColor ::
  "env \<Rightarrow> writer \<Rightarrow> string \<Rightarrow> Series list \<Rightarrow> int \<Rightarrow> int \<Rightarrow> bool \<Rightarrow> (writer \<times> error option) option" where
  "PlotSeriesWithColor e w title series width height forceColor =
     plotSeries e w title series width height forceColor"

subsection \<open>Notions used to state the properties\<close>

text \<open>
  What a run of \<open>Fprintln\<close> calls, one per line, does to the sink when each is followed by
  \<open>if err != nil { return err }\<close>: it stops at the first call that fails.
\<close>

fun writeLines :: "writer \<Rightarrow> string list \<Rightarrow> writer \<times> error option" where
  "writeLines w [] = (w, None)"
| "writeLines w (l # ls) =
     (case Fprintln w l of (w', Some err) \<Rightarrow> (w', Some err) | (w', None) \<Rightarrow> writeLines w' ls)"

text \<open>
  The lines that \<open>plotSeries\<close> hands to the sink, in order, when there is a series to
  plot: the same steps as \<open>plotSeries\<close>, without the writes.  Lemma
  \<open>plotSeries_eq_writeLines\<close> shows that \<open>plotSeries\<close> writes exactly these.
\<close>

definition plotSeries_lines ::
  "env \<Rightarrow> bool \<Rightarrow> string \<Rightarrow> Series list \<Rightarrow> int \<Rightarrow> int \<Rightarrow> string list option" where
  "plotSeries_lines e useColor title series0 width0 height0 =
     (let series = filterSeries series0;
          height = plotSeries_height height0;
          width = plotSeries_width e width0
      in do {
        scaled \<leftarrow> plotSeries_scaled series width;
        let minMax = plotSeries_minMax scaled;
        seriesCells \<leftarrow> plotSeries_seriesCells scaled minMax height width;
        axisLabels \<leftarrow> makeAxisLabels height;
        ranges \<leftarrow> those (map (plotSeries_rangeText minMax) (enumerate 0 scaled));
        rows \<leftarrow> those (map (plotSeries_rowText seriesCells useColor axisLabels
                               (int (length axisLabelTop)) width) [0..<nat height]);
        legend \<leftarrow> renderLegend scaled useColor;
        Some ((if title \<noteq> [] then [title] else []) @ [scaleNote] @ ranges @ rows @ [legend, []])
      })"

text \<open>Two different dots that touch: neighbours by a side or by a corner.\<close>

definition adjacentDots :: "int \<times> int \<Rightarrow> int \<times> int \<Rightarrow> bool" where
  "adjacentDots p q = (p \<noteq> q \<and> \<bar>fst q - fst p\<bar> \<le> 1 \<and> \<bar>snd q - snd p\<bar> \<le> 1)"

definition between :: "int \<Rightarrow> int \<Rightarrow> int \<Rightarrow> bool" where
  "between a b x = (min a b \<le> x \<and> x \<le> max a b)"

text \<open>Reading a dot back from a grid: dot \<open>(x, y)\<close> lies in the grid and its bit is set.\<close>

definition dotLit :: "cells \<Rightarrow> int \<Rightarrow> int \<Rightarrow> bool" where
  "dotLit cells x y =
     (0 \<le> x \<and> 0 \<le> y \<and> y sdiv 4 < int (length cells)
      \<and> x sdiv 2 < int (length (cells ! nat (y sdiv 4)))
      \<and> cells ! nat (y sdiv 4) ! nat (x sdiv 2) AND brailleDotMask (x smod 2) (y smod 4) \<noteq> 0)"

text \<open>
  The invariant of the loop of \<open>drawLine\<close>: with \<open>rx\<close> and \<open>ry\<close> the distances that
  remain to the end point, \<open>err = dx + dy - ry * dx - rx * dy\<close>, and the signs point to
  the end point.
\<close>

definition drawLine_inv ::
  "int \<Rightarrow> int \<Rightarrow> int \<Rightarrow> int \<Rightarrow> int \<Rightarrow> int \<Rightarrow> int \<times> int \<times> int \<Rightarrow> bool" where
  "drawLine_inv x1 y1 dx dy sx sy st =
     (case st of (x0, y0, err) \<Rightarrow>
        \<bar>x1 - x0\<bar> \<le> dx \<and> \<bar>y1 - y0\<bar> \<le> - dy
        \<and> (x0 < x1 \<longrightarrow> sx = 1) \<and> (x1 < x0 \<longrightarrow> sx = - 1)
        \<and> (y0 < y1 \<longrightarrow> sy = 1) \<and> (y1 < y0 \<longrightarrow> sy = - 1)
        \<and> err = dx + dy - \<bar>y1 - y0\<bar> * dx - \<bar>x1 - x0\<bar> * dy)"

section \<open>Properties\<close>

subsection \<open>Auxiliary facts\<close>

lemma those_map_Some:
  "(\<And>x. x \<in> set xs \<Longrightarrow> f x = Some (g x)) \<Longrightarrow> those (map f xs) = Some (map g xs)"
  by (induction xs) auto

lemma those_map_total:
  assumes "\<And>x. x \<in> set xs \<Longrightarrow> f x \<noteq> None"
  shows "those (map f xs) = Some (map (\<lambda>x. the (f x)) xs)"
  by (rule those_map_Some) (use assms in auto)

lemma go_int_div:
  assumes "0 \<le> a" "0 < w"
  shows "go_int (real_of_int a / real_of_int w) = a div w"
  using assms by (simp add: go_int_def floor_divide_of_int_eq)

lemma int_div_le_iff:
  fixes a w k :: int
  assumes "0 < w"
  shows "a div w \<le> k \<longleftrightarrow> a < (k + 1) * w"
proof
  assume "a div w \<le> k"
  show "a < (k + 1) * w"
  proof (rule ccontr)
    assume "\<not> a < (k + 1) * w"
    then have "(k + 1) * w \<le> a" by simp
    then have "((k + 1) * w) div w \<le> a div w" using assms by (rule zdiv_mono1)
    then have "k + 1 \<le> a div w" using assms by simp
    with \<open>a div w \<le> k\<close> show False by simp
  qed
next
  assume "a < (k + 1) * w"
  then have "a \<le> (w - 1) + k * w" by (simp add: algebra_simps)
  then have "a div w \<le> ((w - 1) + k * w) div w" using assms by (rule zdiv_mono1)
  also have "\<dots> = k" using assms by (simp add: div_pos_pos_trivial)
  finally show "a div w \<le> k" .
qed

lemma int_less_div_iff:
  fixes a w k :: int
  assumes "0 < w"
  shows "k < a div w \<longleftrightarrow> (k + 1) * w \<le> a"
  using int_div_le_iff [OF assms, of a k] by linarith

lemma foldl_add_sum_list: "foldl (+) (a::real) xs = a + sum_list xs"
  by (induction xs arbitrary: a) (simp_all add: add.assoc)

lemma block_eq:
  assumes "0 \<le> i" "i < width" "width < n"
  shows "resampleSeries_block n width i = ((i * n) div width, ((i + 1) * n) div width)"
    and "(i * n) div width < ((i + 1) * n) div width"
    and "((i + 1) * n) div width \<le> n"
    and "0 \<le> (i * n) div width"
proof -
  have w: "0 < width" and n: "0 < n" using assms by simp_all
  have s: "go_int (real_of_int i * real_of_int n / real_of_int width) = (i * n) div width"
    using go_int_div [of "i * n" width] assms n w by simp
  have e: "go_int (real_of_int (i + 1) * real_of_int n / real_of_int width) = ((i + 1) * n) div width"
    using go_int_div [of "(i + 1) * n" width] assms n w by simp
  have "(i * n) div width + 1 = (i * n + width) div width" using w by simp
  also have "\<dots> \<le> ((i + 1) * n) div width"
    using assms w by (intro zdiv_mono1) (simp_all add: algebra_simps)
  finally show lt: "(i * n) div width < ((i + 1) * n) div width" by simp
  have "(i + 1) * n \<le> width * n" using assms n by (intro mult_right_mono) simp_all
  then have "(i + 1) * n < (n + 1) * width" using w by (simp add: algebra_simps)
  then show le: "((i + 1) * n) div width \<le> n"
    using int_div_le_iff [OF w, of "(i + 1) * n" n] by simp
  show "0 \<le> (i * n) div width" using assms n w by (simp add: pos_imp_zdiv_nonneg_iff)
  show "resampleSeries_block n width i = ((i * n) div width, ((i + 1) * n) div width)"
    unfolding resampleSeries_block_def Let_def s e using lt le by simp
qed

lemma block_member_iff:
  fixes i n width k :: int
  assumes "0 < width" "0 < n"
  shows "(i * n) div width \<le> k \<and> k < ((i + 1) * n) div width \<longleftrightarrow> i = ((k + 1) * width - 1) div n"
proof -
  let ?X = "(k + 1) * width - 1"
  have a: "?X div n \<le> i \<longleftrightarrow> ?X < (i + 1) * n"
    by (rule int_div_le_iff [OF assms(2)])
  have b: "i - 1 < ?X div n \<longleftrightarrow> i * n \<le> ?X"
    using int_less_div_iff [OF assms(2), of "i - 1" ?X] by simp
  have "(i * n) div width \<le> k \<and> k < ((i + 1) * n) div width
        \<longleftrightarrow> i * n < (k + 1) * width \<and> (k + 1) * width \<le> (i + 1) * n"
    using int_div_le_iff [OF assms(1)] int_less_div_iff [OF assms(1)] by simp
  also have "\<dots> \<longleftrightarrow> i * n \<le> ?X \<and> ?X < (i + 1) * n" by linarith
  also have "\<dots> \<longleftrightarrow> i - 1 < ?X div n \<and> ?X div n \<le> i" using a b by simp
  also have "\<dots> \<longleftrightarrow> i = ?X div n" by linarith
  finally show ?thesis .
qed


lemma resampleSeries_down_eq:
  assumes "0 \<le> i" "i < width" "width < int (length values)"
  shows "resampleSeries_down values width i =
     Some (case resampleSeries_block (int (length values)) width i of
            (s, e) \<Rightarrow> sum_list (take (nat (e - s)) (drop (nat s) values)) / real_of_int (e - s))"
  using block_eq [OF assms]
  by (simp add: resampleSeries_down_def slice_def foldl_add_sum_list)

lemma resampleSeries_up_Some:
  assumes "0 \<le> i" "1 < int (length values)"  "1 < width"
  shows "resampleSeries_up values width i \<noteq> None"
proof -
  let ?n = "int (length values)"
  let ?pos = "real_of_int i * real_of_int (?n - 1) / real_of_int (width - 1)"
  have "0 \<le> ?pos" using assms by simp
  then have "0 \<le> go_int (math_Floor ?pos)"
    by (simp add: go_int_def math_Floor_def)
  moreover have "values \<noteq> []" using assms by auto
  ultimately show ?thesis
    using assms by (auto simp: resampleSeries_up_def Let_def index_def)
qed

lemma resampleSeries_returns:
  assumes "values \<noteq> []" and "1 \<le> width"
  shows "\<exists>out. resampleSeries values width = Some out \<and> int (length out) = width"
proof -
  let ?n = "int (length values)"
  have n: "0 < ?n" using assms by simp
  consider (same) "?n = width" | (down) "width < ?n" | (one) "?n < width" "?n = 1"
    | (up) "?n < width" "1 < ?n"
    using n by linarith
  then show ?thesis
  proof cases
    case same
    then show ?thesis using assms by (simp add: resampleSeries_def)
  next
    case down
    have "those (map (\<lambda>i. resampleSeries_down values width (int i)) [0..<nat width])
        = Some (map (\<lambda>i. the (resampleSeries_down values width (int i))) [0..<nat width])"
      by (rule those_map_total) (use down in \<open>simp add: resampleSeries_down_eq\<close>)
    then show ?thesis using assms down by (simp add: resampleSeries_def Let_def)
  next
    case one
    then show ?thesis using assms by (simp add: resampleSeries_def Let_def index_def)
  next
    case up
    have "those (map (\<lambda>i. resampleSeries_up values width (int i)) [0..<nat width])
        = Some (map (\<lambda>i. the (resampleSeries_up values width (int i))) [0..<nat width])"
      by (rule those_map_total) (use up in \<open>simp add: resampleSeries_up_Some\<close>)
    then show ?thesis using assms up by (simp add: resampleSeries_def Let_def)
  qed
qed

subsection \<open>C4: the length of a resampled series\<close>

text \<open>
  Claim C4.  For every non-empty sequence of values and every width of at least 1,
  \<open>resampleSeries\<close> returns (it does not panic) and the sequence it returns has exactly
  \<open>width\<close> elements, whichever of its branches is taken: the copy, the block averages,
  the single value, the replication or the interpolation.
\<close>

theorem resampleSeries_length:
  assumes "values \<noteq> []" and "1 \<le> width"
  shows "\<exists>out. resampleSeries values width = Some out \<and> int (length out) = width"
  using assms by (rule resampleSeries_returns)

theorem resampleSeries_length_witness:
  "[1, 2, 3, 4, 5, 6, 7 :: real] \<noteq> [] \<and> (1::int) \<le> 3
   \<and> (\<exists>out. resampleSeries [1, 2, 3, 4, 5, 6, 7] 3 = Some out \<and> int (length out) = 3)"
  using resampleSeries_length [of "[1, 2, 3, 4, 5, 6, 7]" 3] by simp

subsection \<open>C1: the blocks of the downsampling pass\<close>

text \<open>
  Claim C1.  For a non-empty input of \<open>n\<close> values and \<open>1 \<le> width < n\<close>, block \<open>i\<close> of the
  downsampling pass runs from \<open>floor (i * n / width)\<close> up to, not including,
  \<open>floor ((i + 1) * n / width)\<close>: the guard \<open>end = start + 1\<close> and the cap at \<open>n\<close> leave
  these bounds as they are.  Every block is non-empty and inside the input, the bounds are
  monotonically non-decreasing in \<open>i\<close>, the first block starts at 0, each block starts
  where the one before ends, the last block ends at \<open>n\<close>, every input index lies in
  exactly one block, and the output is, block by block, the sum of the block divided by
  the number of its elements.
\<close>

theorem resampleSeries_downsample_blocks:
  assumes "1 \<le> width" and "width < int (length values)"
  shows
    "(\<forall>i. 0 \<le> i \<and> i < width \<longrightarrow>
        resampleSeries_block (int (length values)) width i
          = (\<lfloor>real_of_int i * real (length values) / real_of_int width\<rfloor>,
             \<lfloor>real_of_int (i + 1) * real (length values) / real_of_int width\<rfloor>))
     \<and> (\<forall>i. 0 \<le> i \<and> i < width \<longrightarrow>
        (case resampleSeries_block (int (length values)) width i of
           (s, e) \<Rightarrow> 0 \<le> s \<and> s < e \<and> e \<le> int (length values)))
     \<and> (\<forall>i j. 0 \<le> i \<and> i \<le> j \<and> j < width \<longrightarrow>
        fst (resampleSeries_block (int (length values)) width i)
          \<le> fst (resampleSeries_block (int (length values)) width j)
        \<and> snd (resampleSeries_block (int (length values)) width i)
          \<le> snd (resampleSeries_block (int (length values)) width j))
     \<and> fst (resampleSeries_block (int (length values)) width 0) = 0
     \<and> (\<forall>i. 0 \<le> i \<and> i + 1 < width \<longrightarrow>
        snd (resampleSeries_block (int (length values)) width i)
          = fst (resampleSeries_block (int (length values)) width (i + 1)))
     \<and> snd (resampleSeries_block (int (length values)) width (width - 1)) = int (length values)
     \<and> (\<forall>k. 0 \<le> k \<and> k < int (length values) \<longrightarrow>
        (\<exists>!i. 0 \<le> i \<and> i < width
           \<and> fst (resampleSeries_block (int (length values)) width i) \<le> k
           \<and> k < snd (resampleSeries_block (int (length values)) width i)))
     \<and> resampleSeries values width
        = Some (map (\<lambda>i. case resampleSeries_block (int (length values)) width (int i) of
                   (s, e) \<Rightarrow> sum_list (take (nat (e - s)) (drop (nat s) values))
                              / real (length (take (nat (e - s)) (drop (nat s) values))))
                 [0..<nat width])"
proof -
  let ?n = "int (length values)"
  let ?B = "resampleSeries_block ?n width"
  have w: "0 < width" and n: "0 < ?n" using assms by linarith+
  have ne: "values \<noteq> []" using n by simp
  have B: "?B i = ((i * ?n) div width, ((i + 1) * ?n) div width)" if "0 \<le> i" "i < width" for i
    using block_eq(1) [OF that assms(2)] .
  have c1: "\<forall>i. 0 \<le> i \<and> i < width \<longrightarrow>
        ?B i = (\<lfloor>real_of_int i * real (length values) / real_of_int width\<rfloor>,
             \<lfloor>real_of_int (i + 1) * real (length values) / real_of_int width\<rfloor>)"
  proof (intro allI impI)
    fix i assume i: "0 \<le> i \<and> i < width"
    have "\<lfloor>real_of_int (i * ?n) / real_of_int width\<rfloor> = (i * ?n) div width"
      and "\<lfloor>real_of_int ((i + 1) * ?n) / real_of_int width\<rfloor> = ((i + 1) * ?n) div width"
      by (rule floor_divide_of_int_eq)+
    then show "?B i = (\<lfloor>real_of_int i * real (length values) / real_of_int width\<rfloor>,
             \<lfloor>real_of_int (i + 1) * real (length values) / real_of_int width\<rfloor>)"
      using B i by simp
  qed
  have c2: "\<forall>i. 0 \<le> i \<and> i < width \<longrightarrow> (case ?B i of (s, e) \<Rightarrow> 0 \<le> s \<and> s < e \<and> e \<le> ?n)"
    using block_eq [OF _ _ assms(2)] by simp
  have c3: "\<forall>i j. 0 \<le> i \<and> i \<le> j \<and> j < width \<longrightarrow>
        fst (?B i) \<le> fst (?B j) \<and> snd (?B i) \<le> snd (?B j)"
  proof (intro allI impI)
    fix i j assume ij: "0 \<le> i \<and> i \<le> j \<and> j < width"
    have "i * ?n \<le> j * ?n" "(i + 1) * ?n \<le> (j + 1) * ?n"
      using ij n by (simp_all add: mult_right_mono)
    then have "(i * ?n) div width \<le> (j * ?n) div width"
      "((i + 1) * ?n) div width \<le> ((j + 1) * ?n) div width"
      using w by (simp_all add: zdiv_mono1)
    then show "fst (?B i) \<le> fst (?B j) \<and> snd (?B i) \<le> snd (?B j)"
      using B [of i] B [of j] ij by simp
  qed
  have c4: "fst (?B 0) = 0" using B [of 0] w by simp
  have c5: "\<forall>i. 0 \<le> i \<and> i + 1 < width \<longrightarrow> snd (?B i) = fst (?B (i + 1))"
    using B by simp
  have c6: "snd (?B (width - 1)) = ?n" using B [of "width - 1"] w by simp
  have c7: "\<forall>k. 0 \<le> k \<and> k < ?n \<longrightarrow>
        (\<exists>!i. 0 \<le> i \<and> i < width \<and> fst (?B i) \<le> k \<and> k < snd (?B i))"
  proof (intro allI impI)
    fix k assume k: "0 \<le> k \<and> k < ?n"
    let ?i = "((k + 1) * width - 1) div ?n"
    have "0 \<le> (k + 1) * width - 1" using k w by (simp add: algebra_simps) (smt (verit) mult_nonneg_nonneg)
    then have i0: "0 \<le> ?i" using n by (simp add: pos_imp_zdiv_nonneg_iff)
    have "(k + 1) * width \<le> ?n * width" using k w by (intro mult_right_mono) simp_all
    then have "(k + 1) * width - 1 < (width - 1 + 1) * ?n" by (simp add: algebra_simps)
    then have "?i \<le> width - 1" using int_div_le_iff [OF n, of "(k + 1) * width - 1" "width - 1"] by blast
    then have i1: "?i < width" by simp
    have mem: "fst (?B i) \<le> k \<and> k < snd (?B i) \<longleftrightarrow> i = ?i" if "0 \<le> i" "i < width" for i
      using B [OF that] block_member_iff [OF w n, of i k] by simp
    show "\<exists>!i. 0 \<le> i \<and> i < width \<and> fst (?B i) \<le> k \<and> k < snd (?B i)"
    proof (rule ex1I [of _ ?i])
      show "0 \<le> ?i \<and> ?i < width \<and> fst (?B ?i) \<le> k \<and> k < snd (?B ?i)"
        using mem [OF i0 i1] i0 i1 by simp
    next
      fix i assume "0 \<le> i \<and> i < width \<and> fst (?B i) \<le> k \<and> k < snd (?B i)"
      then show "i = ?i" using mem [of i] by simp
    qed
  qed
  have "those (map (\<lambda>i. resampleSeries_down values width (int i)) [0..<nat width])
      = Some (map (\<lambda>i. case ?B (int i) of
                   (s, e) \<Rightarrow> sum_list (take (nat (e - s)) (drop (nat s) values))
                              / real (length (take (nat (e - s)) (drop (nat s) values))))
                 [0..<nat width])"
  proof (rule those_map_Some)
    fix x assume "x \<in> set [0..<nat width]"
    then have x: "0 \<le> int x" "int x < width" by simp_all
    have len: "real (length (take (nat (e - s)) (drop (nat s) values))) = real_of_int (e - s)"
      if "?B (int x) = (s, e)" for s e
      using that block_eq [OF x assms(2)] by (auto simp: min_def)
    show "resampleSeries_down values width (int x)
        = Some (case ?B (int x) of
                   (s, e) \<Rightarrow> sum_list (take (nat (e - s)) (drop (nat s) values))
                              / real (length (take (nat (e - s)) (drop (nat s) values))))"
      using resampleSeries_down_eq [OF x assms(2)] len by (auto split: prod.splits)
  qed
  then have c8: "resampleSeries values width
        = Some (map (\<lambda>i. case ?B (int i) of
                   (s, e) \<Rightarrow> sum_list (take (nat (e - s)) (drop (nat s) values))
                              / real (length (take (nat (e - s)) (drop (nat s) values))))
                 [0..<nat width])"
    using assms ne by (simp add: resampleSeries_def Let_def)
  from c1 c2 c3 c4 c5 c6 c7 c8 show ?thesis by blast
qed

theorem resampleSeries_downsample_blocks_witness:
  "(1::int) \<le> 3 \<and> 3 < int (length [1, 2, 3, 4, 5, 6, 7 :: real])
   \<and> snd (resampleSeries_block (int (length [1, 2, 3, 4, 5, 6, 7 :: real])) 3 2) = 7
   \<and> resampleSeries [1, 2, 3, 4, 5, 6, 7] 3 = Some [3 / 2, 7 / 2, 6]"
proof -
  have h1: "(1::int) \<le> 3" by simp
  have h2: "(3::int) < int (length [1, 2, 3, 4, 5, 6, 7 :: real])" by simp
  note t = resampleSeries_downsample_blocks [OF h1 h2]
  from t have "snd (resampleSeries_block (int (length [1, 2, 3, 4, 5, 6, 7 :: real])) 3 (3 - 1))
      = int (length [1, 2, 3, 4, 5, 6, 7 :: real])"
    by blast
  moreover from t have "resampleSeries [1, 2, 3, 4, 5, 6, 7] 3
      = Some (map (\<lambda>i. case resampleSeries_block (int (length [1, 2, 3, 4, 5, 6, 7 :: real])) 3 (int i) of
                   (s, e) \<Rightarrow> sum_list (take (nat (e - s)) (drop (nat s) [1, 2, 3, 4, 5, 6, 7]))
                              / real (length (take (nat (e - s)) (drop (nat s) [1, 2, 3, 4, 5, 6, 7 :: real]))))
                 [0..<nat 3])"
    by blast
  ultimately show ?thesis
    using h1 h2 by (simp add: resampleSeries_block_def go_int_def upt_rec)
qed

subsection \<open>drawLine: the loop ends at the end point\<close>

lemma drawLine_step_end:
  "drawLine_step x1 y1 dx dy sx sy (x1, y1, err) = None"
  by (simp add: drawLine_step_def)

lemma drawLine_step_next:
  assumes inv: "drawLine_inv x1 y1 dx dy sx sy (x0, y0, err)"
    and ne: "(x0, y0) \<noteq> (x1, y1)"
  shows "\<exists>xa ya erra. drawLine_step x1 y1 dx dy sx sy (x0, y0, err) = Some (xa, ya, erra)
           \<and> drawLine_inv x1 y1 dx dy sx sy (xa, ya, erra)
           \<and> \<bar>x1 - xa\<bar> + \<bar>y1 - ya\<bar> < \<bar>x1 - x0\<bar> + \<bar>y1 - y0\<bar>
           \<and> adjacentDots (x0, y0) (xa, ya)
           \<and> between x0 x1 xa \<and> between y0 y1 ya"
proof -
  let ?rx = "\<bar>x1 - x0\<bar>" and ?ry = "\<bar>y1 - y0\<bar>"
  from inv have rx: "?rx \<le> dx" and ry: "?ry \<le> - dy"
    and sx: "x0 < x1 \<Longrightarrow> sx = 1" "x1 < x0 \<Longrightarrow> sx = - 1"
    and sy: "y0 < y1 \<Longrightarrow> sy = 1" "y1 < y0 \<Longrightarrow> sy = - 1"
    and err: "err = dx + dy - ?ry * dx - ?rx * dy"
    by (simp_all add: drawLine_inv_def)
  have dx0: "0 \<le> dx" and dy0: "dy \<le> 0" using rx ry by linarith+
  text \<open>no pass leaves both coordinates as they are\<close>
  have progress: "2 * err \<ge> dy \<or> 2 * err \<le> dx" using dx0 dy0 by linarith
  text \<open>the break on x does not fire before the end\<close>
  have nobreak_x: "\<not> 2 * err \<ge> dy" if "x0 = x1"
  proof -
    from that ne have "1 \<le> ?ry" by auto
    then have "1 * dx \<le> ?ry * dx" using dx0 by (intro mult_right_mono) simp_all
    moreover have "dy < 0" using ry \<open>1 \<le> ?ry\<close> by linarith
    ultimately show ?thesis using err that by simp
  qed
  have nobreak_y: "\<not> 2 * err \<le> dx" if "y0 = y1"
  proof -
    from that ne have "1 \<le> ?rx" by auto
    then have "?rx * dy \<le> 1 * dy" using dy0 by (intro mult_right_mono_neg) simp_all
    moreover have "0 < dx" using rx \<open>1 \<le> ?rx\<close> by linarith
    ultimately show ?thesis using err that by simp
  qed
  define stepx where "stepx \<longleftrightarrow> 2 * err \<ge> dy"
  define stepy where "stepy \<longleftrightarrow> 2 * err \<le> dx"
  define xa where "xa = (if stepx then x0 + sx else x0)"
  define ya where "ya = (if stepy then y0 + sy else y0)"
  define erra where "erra = (if stepy then (if stepx then err + dy else err) + dx
                             else (if stepx then err + dy else err))"
  have sxne: "x0 \<noteq> x1" if stepx using that nobreak_x by (auto simp: stepx_def)
  have syne: "y0 \<noteq> y1" if stepy using that nobreak_y by (auto simp: stepy_def)
  have sxv: "sx = (if x0 < x1 then 1 else - 1)" if "x0 \<noteq> x1"
    using that sx by (cases "x0 < x1") auto
  have syv: "sy = (if y0 < y1 then 1 else - 1)" if "y0 \<noteq> y1"
    using that sy by (cases "y0 < y1") auto
  have some: "stepx \<or> stepy" using progress by (simp add: stepx_def stepy_def)
  have step: "drawLine_step x1 y1 dx dy sx sy (x0, y0, err) = Some (xa, ya, erra)"
    using ne sxne syne
    by (auto simp: drawLine_step_def Let_def stepx_def stepy_def xa_def ya_def erra_def)
  have rxa: "\<bar>x1 - xa\<bar> = ?rx - (if stepx then 1 else 0)"
    using sxne sx by (cases "x0 < x1") (auto simp: xa_def)
  have rya: "\<bar>y1 - ya\<bar> = ?ry - (if stepy then 1 else 0)"
    using syne sy by (cases "y0 < y1") (auto simp: ya_def)
  have erra: "erra = dx + dy - \<bar>y1 - ya\<bar> * dx - \<bar>x1 - xa\<bar> * dy"
    unfolding rxa rya erra_def err by (simp add: algebra_simps)
  have sgn: "(xa < x1 \<longrightarrow> sx = 1) \<and> (x1 < xa \<longrightarrow> sx = - 1)
      \<and> (ya < y1 \<longrightarrow> sy = 1) \<and> (y1 < ya \<longrightarrow> sy = - 1)"
    using sxne syne sxv syv by (auto simp: xa_def ya_def split: if_splits)
  have inv': "drawLine_inv x1 y1 dx dy sx sy (xa, ya, erra)"
    using rxa rya rx ry erra sgn by (simp add: drawLine_inv_def split: if_splits)
  have less: "\<bar>x1 - xa\<bar> + \<bar>y1 - ya\<bar> < ?rx + ?ry"
    using rxa rya some by (auto split: if_splits)
  have adj: "adjacentDots (x0, y0) (xa, ya)"
    using some sxne syne sxv syv
    by (auto simp: adjacentDots_def xa_def ya_def split: if_splits)
  have btw: "between x0 x1 xa \<and> between y0 y1 ya"
    using sxne syne sxv syv
    by (auto simp: between_def xa_def ya_def split: if_splits)
  from step inv' less adj btw show ?thesis by blast
qed


lemma between_trans:
  "between a b c \<Longrightarrow> between c b x \<Longrightarrow> between a b x"
  by (auto simp: between_def min_def max_def split: if_splits)

lemma between_refl [simp]: "between a b a" "between a b b"
  by (simp_all add: between_def)

lemma drawLine_loop_path:
  assumes "drawLine_inv x1 y1 dx dy sx sy (x0, y0, err)"
  shows "\<exists>ps. (\<forall>plot s. drawLine_loop x1 y1 dx dy sx sy plot (x0, y0, err) s
                    = Some (fold (\<lambda>p. plot (fst p) (snd p)) ps s))
           \<and> (\<forall>acc. drawLine_loop x1 y1 dx dy sx sy (\<lambda>x y acc. acc @ [(x, y)]) (x0, y0, err) acc
                    = Some (acc @ ps))
           \<and> ps \<noteq> [] \<and> hd ps = (x0, y0) \<and> last ps = (x1, y1)
           \<and> successively adjacentDots ps
           \<and> int (length ps) \<le> \<bar>x1 - x0\<bar> + \<bar>y1 - y0\<bar> + 1
           \<and> (\<forall>p \<in> set ps. between x0 x1 (fst p) \<and> between y0 y1 (snd p))"
  using assms
proof (induction "nat (\<bar>x1 - x0\<bar> + \<bar>y1 - y0\<bar>)" arbitrary: x0 y0 err rule: less_induct)
  case less
  show ?case
  proof (cases "(x0, y0) = (x1, y1)")
    case True
    then have "drawLine_loop x1 y1 dx dy sx sy plot (x0, y0, err) s
        = Some (fold (\<lambda>p. plot (fst p) (snd p)) [(x1, y1)] s)" for plot :: "int \<Rightarrow> int \<Rightarrow> 'a \<Rightarrow> 'a" and s
      by (subst drawLine_loop.simps) (simp add: drawLine_step_end)
    moreover have "drawLine_loop x1 y1 dx dy sx sy (\<lambda>x y acc. acc @ [(x, y)]) (x0, y0, err) acc
        = Some (acc @ [(x1, y1)])" for acc
      using True by (subst drawLine_loop.simps) (simp add: drawLine_step_end)
    ultimately show ?thesis using True by (intro exI [of _ "[(x1, y1)]"]) simp
  next
    case False
    from drawLine_step_next [OF less.prems False]
    obtain xa ya erra where
      step: "drawLine_step x1 y1 dx dy sx sy (x0, y0, err) = Some (xa, ya, erra)"
      and inv: "drawLine_inv x1 y1 dx dy sx sy (xa, ya, erra)"
      and dec: "\<bar>x1 - xa\<bar> + \<bar>y1 - ya\<bar> < \<bar>x1 - x0\<bar> + \<bar>y1 - y0\<bar>"
      and adj: "adjacentDots (x0, y0) (xa, ya)"
      and btw: "between x0 x1 xa" "between y0 y1 ya"
      by blast
    from dec have "nat (\<bar>x1 - xa\<bar> + \<bar>y1 - ya\<bar>) < nat (\<bar>x1 - x0\<bar> + \<bar>y1 - y0\<bar>)" by linarith
    from less.hyps [OF this inv]
    obtain ps where
      run: "\<And>(plot :: int \<Rightarrow> int \<Rightarrow> 'a \<Rightarrow> 'a) s. drawLine_loop x1 y1 dx dy sx sy plot (xa, ya, erra) s
                = Some (fold (\<lambda>p. plot (fst p) (snd p)) ps s)"
      and log: "\<And>acc. drawLine_loop x1 y1 dx dy sx sy (\<lambda>x y acc. acc @ [(x, y)]) (xa, ya, erra) acc
                = Some (acc @ ps)"
      and ne: "ps \<noteq> []" and hd: "hd ps = (xa, ya)" and last: "last ps = (x1, y1)"
      and chain: "successively adjacentDots ps"
      and len: "int (length ps) \<le> \<bar>x1 - xa\<bar> + \<bar>y1 - ya\<bar> + 1"
      and box: "\<forall>p \<in> set ps. between xa x1 (fst p) \<and> between ya y1 (snd p)"
      by blast
    have "drawLine_loop x1 y1 dx dy sx sy plot (x0, y0, err) s
        = Some (fold (\<lambda>p. plot (fst p) (snd p)) ((x0, y0) # ps) s)" for plot :: "int \<Rightarrow> int \<Rightarrow> 'a \<Rightarrow> 'a" and s
      by (subst drawLine_loop.simps) (simp add: step run)
    moreover have "drawLine_loop x1 y1 dx dy sx sy (\<lambda>x y acc. acc @ [(x, y)]) (x0, y0, err) acc
        = Some (acc @ (x0, y0) # ps)" for acc
      by (subst drawLine_loop.simps) (simp add: step log)
    moreover have "successively adjacentDots ((x0, y0) # ps)"
      using ne hd adj chain by (simp add: successively_Cons)
    moreover have "\<forall>p \<in> set ((x0, y0) # ps). between x0 x1 (fst p) \<and> between y0 y1 (snd p)"
      using box btw by (auto intro: between_trans)
    moreover have "int (length ((x0, y0) # ps)) \<le> \<bar>x1 - x0\<bar> + \<bar>y1 - y0\<bar> + 1"
      using len dec by simp
    ultimately show ?thesis
      using ne last by (intro exI [of _ "(x0, y0) # ps"]) simp
  qed
qed

lemma drawLine_inv_init:
  "drawLine_inv x1 y1 (go_int \<bar>real_of_int (x1 - x0)\<bar>) (- go_int \<bar>real_of_int (y1 - y0)\<bar>)
     (if x0 < x1 then 1 else - 1) (if y0 < y1 then 1 else - 1)
     (x0, y0, go_int \<bar>real_of_int (x1 - x0)\<bar> + - go_int \<bar>real_of_int (y1 - y0)\<bar>)"
proof -
  have "go_int \<bar>real_of_int k\<bar> = \<bar>k\<bar>" for k
  proof -
    have "\<bar>real_of_int k\<bar> = real_of_int \<bar>k\<bar>" by simp
    then show ?thesis unfolding go_int_def by (simp del: of_int_abs)
  qed
  then show ?thesis by (simp add: drawLine_inv_def algebra_simps del: of_int_diff)
qed

lemma drawLine_path:
  "\<exists>ps. (\<forall>plot s. drawLine x0 y0 x1 y1 plot s = Some (fold (\<lambda>p. plot (fst p) (snd p)) ps s))
        \<and> drawLine x0 y0 x1 y1 (\<lambda>x y acc. acc @ [(x, y)]) [] = Some ps
        \<and> ps \<noteq> [] \<and> hd ps = (x0, y0) \<and> last ps = (x1, y1)
        \<and> successively adjacentDots ps
        \<and> int (length ps) \<le> \<bar>x1 - x0\<bar> + \<bar>y1 - y0\<bar> + 1
        \<and> (\<forall>p \<in> set ps. between x0 x1 (fst p) \<and> between y0 y1 (snd p))"
proof -
  let ?dx = "go_int \<bar>real_of_int (x1 - x0)\<bar>" and ?dy = "- go_int \<bar>real_of_int (y1 - y0)\<bar>"
  let ?sx = "if x0 < x1 then 1 else - 1 :: int" and ?sy = "if y0 < y1 then 1 else - 1 :: int"
  from drawLine_loop_path [OF drawLine_inv_init [of x1 y1 x0 y0]]
  obtain ps where
    run: "\<And>(plot :: int \<Rightarrow> int \<Rightarrow> 'a \<Rightarrow> 'a) s.
            drawLine_loop x1 y1 ?dx ?dy ?sx ?sy plot (x0, y0, ?dx + ?dy) s
              = Some (fold (\<lambda>p. plot (fst p) (snd p)) ps s)"
    and log: "\<And>acc. drawLine_loop x1 y1 ?dx ?dy ?sx ?sy (\<lambda>x y acc. acc @ [(x, y)]) (x0, y0, ?dx + ?dy) acc
              = Some (acc @ ps)"
    and rest: "ps \<noteq> []" "hd ps = (x0, y0)" "last ps = (x1, y1)" "successively adjacentDots ps"
      "int (length ps) \<le> \<bar>x1 - x0\<bar> + \<bar>y1 - y0\<bar> + 1"
      "\<forall>p \<in> set ps. between x0 x1 (fst p) \<and> between y0 y1 (snd p)"
    by blast
  have a: "drawLine x0 y0 x1 y1 plot s = Some (fold (\<lambda>p. plot (fst p) (snd p)) ps s)"
    for plot :: "int \<Rightarrow> int \<Rightarrow> 'a \<Rightarrow> 'a" and s
    unfolding drawLine_def Let_def by (rule run)
  have "drawLine x0 y0 x1 y1 (\<lambda>x y acc. acc @ [(x, y)]) [] = Some ([] @ ps)"
    unfolding drawLine_def Let_def by (rule log)
  then have b: "drawLine x0 y0 x1 y1 (\<lambda>x y acc. acc @ [(x, y)]) [] = Some ps" by simp
  from a b rest show ?thesis by blast
qed

subsection \<open>Dots set in a grid\<close>

lemma sdiv_nonneg: "0 \<le> a \<Longrightarrow> 0 < b \<Longrightarrow> a sdiv b = a div (b::int)"
  by (cases "a = 0") (simp_all add: signed_divide_int_def)

lemma smod_nonneg: "0 \<le> a \<Longrightarrow> 0 < b \<Longrightarrow> a smod b = a mod (b::int)"
  by (cases "a = 0") (simp_all add: signed_modulo_int_def)

lemma brailleDotMask_cases:
  assumes "0 \<le> x" "0 \<le> y"
  shows "brailleDotMask (x smod 2) (y smod 4) \<in> {0x01, 0x02, 0x04, 0x40, 0x08, 0x10, 0x20, 0x80}"
proof -
  have "x mod 2 = 0 \<or> x mod 2 = 1" by presburger
  moreover have "y mod 4 = 0 \<or> y mod 4 = 1 \<or> y mod 4 = 2 \<or> y mod 4 = 3" by presburger
  ultimately show ?thesis
    using assms by (auto simp: smod_nonneg brailleDotMask_def)
qed

lemma brailleDotMask_nonzero:
  "0 \<le> x \<Longrightarrow> 0 \<le> y \<Longrightarrow> brailleDotMask (x smod 2) (y smod 4) \<noteq> 0"
  using brailleDotMask_cases [of x y] by auto

lemma or_and_self_nonzero: "(m :: 8 word) \<noteq> 0 \<Longrightarrow> (a OR m) AND m \<noteq> 0"
  by (simp add: bit.conj_disj_distrib2)

lemma or_and_mono_nonzero: "(a :: 8 word) AND m \<noteq> 0 \<Longrightarrow> (a OR b) AND m \<noteq> 0"
  by (metis bit.conj_disj_distrib2 or_eq_0_iff)

lemma length_setBrailleDot [simp]: "length (setBrailleDot cells x y) = length cells"
  by (simp add: setBrailleDot_def Let_def)

lemma length_row_setBrailleDot [simp]:
  "length (setBrailleDot cells x y ! i) = length (cells ! i)"
  by (cases "i < length cells") (auto simp: setBrailleDot_def Let_def nth_list_update)

lemma dotLit_setBrailleDot_same:
  assumes "0 \<le> x" "0 \<le> y" "y sdiv 4 < int (length cells)"
    "x sdiv 2 < int (length (cells ! nat (y sdiv 4)))"
  shows "dotLit (setBrailleDot cells x y) x y"
proof -
  have "0 \<le> y sdiv 4" "0 \<le> x sdiv 2" using assms by (simp_all add: sdiv_nonneg)
  then show ?thesis
    using assms brailleDotMask_nonzero [of x y]
    by (simp add: dotLit_def setBrailleDot_def Let_def or_and_self_nonzero)
qed

lemma nth_nth_list_update:
  "i < length g \<Longrightarrow> j < length (g ! i) \<Longrightarrow>
     g[i := (g ! i)[j := v]] ! i' ! j' = (if i' = i \<and> j' = j then v else g ! i' ! j')"
  by (cases "i' = i"; cases "j' = j") (simp_all add: nth_list_update)

lemma setBrailleDot_nth:
  "\<exists>b. setBrailleDot cells x' y' ! i ! j = cells ! i ! j OR b"
proof (cases "setBrailleDot cells x' y' = cells")
  case True
  then show ?thesis by (intro exI [of _ 0]) simp
next
  case False
  then have b: "0 \<le> x'" "0 \<le> y'" "y' sdiv 4 < int (length cells)"
    "x' sdiv 2 < int (length (cells ! nat (y' sdiv 4)))"
    by (auto simp: setBrailleDot_def Let_def split: if_splits)
  then have nn: "0 \<le> y' sdiv 4" "0 \<le> x' sdiv 2" by (simp_all add: sdiv_nonneg)
  from b have eq: "setBrailleDot cells x' y' =
      cells[nat (y' sdiv 4) := (cells ! nat (y' sdiv 4))[nat (x' sdiv 2) :=
         cells ! nat (y' sdiv 4) ! nat (x' sdiv 2) OR brailleDotMask (x' smod 2) (y' smod 4)]]"
    using nn by (simp add: setBrailleDot_def Let_def)
  have i: "nat (y' sdiv 4) < length cells" "nat (x' sdiv 2) < length (cells ! nat (y' sdiv 4))"
    using b nn by simp_all
  show ?thesis
    unfolding eq nth_nth_list_update [OF i]
    by (cases "i = nat (y' sdiv 4) \<and> j = nat (x' sdiv 2)") (auto intro: exI [of _ 0])
qed

lemma dotLit_setBrailleDot_mono:
  assumes "dotLit cells x y"
  shows "dotLit (setBrailleDot cells x' y') x y"
proof -
  obtain b where "setBrailleDot cells x' y' ! nat (y sdiv 4) ! nat (x sdiv 2)
      = cells ! nat (y sdiv 4) ! nat (x sdiv 2) OR b"
    using setBrailleDot_nth by blast
  then show ?thesis
    using assms unfolding dotLit_def by (simp add: or_and_mono_nonzero)
qed

lemma shouldPlot_always:
  assumes "on style = period style"
  shows "shouldPlot style x"
proof (cases "period style \<le> 1")
  case True
  then show ?thesis by (simp add: shouldPlot_def)
next
  case False
  then have "\<bar>x\<bar> smod period style = \<bar>x\<bar> mod period style" by (simp add: smod_nonneg)
  moreover have "\<bar>x\<bar> mod period style < period style" using False by simp
  ultimately show ?thesis using assms False by (simp add: shouldPlot_def abs_if)
qed

lemma dotLit_fold:
  assumes "\<forall>row \<in> set cells. int (length row) = width"
    and "\<forall>p \<in> set ps. 0 \<le> fst p \<and> fst p < 2 * width \<and> 0 \<le> snd p \<and> snd p < 4 * int (length cells)"
  shows "(\<forall>row \<in> set (fold (\<lambda>p c. setBrailleDot c (fst p) (snd p)) ps cells). int (length row) = width)
       \<and> length (fold (\<lambda>p c. setBrailleDot c (fst p) (snd p)) ps cells) = length cells
       \<and> (\<forall>p \<in> set ps. dotLit (fold (\<lambda>p c. setBrailleDot c (fst p) (snd p)) ps cells) (fst p) (snd p))
       \<and> (\<forall>x y. dotLit cells x y \<longrightarrow> dotLit (fold (\<lambda>p c. setBrailleDot c (fst p) (snd p)) ps cells) x y)"
  using assms
proof (induction ps arbitrary: cells)
  case Nil
  then show ?case by simp
next
  case (Cons p ps)
  let ?c = "setBrailleDot cells (fst p) (snd p)"
  have shape: "\<forall>row \<in> set ?c. int (length row) = width"
  proof
    fix row assume "row \<in> set ?c"
    then obtain i where i: "i < length cells" "row = ?c ! i" by (auto simp: in_set_conv_nth)
    then have "cells ! i \<in> set cells" by simp
    then show "int (length row) = width" using Cons.prems(1) i by simp
  qed
  have p: "0 \<le> fst p" "fst p < 2 * width" "0 \<le> snd p" "snd p < 4 * int (length cells)"
    using Cons.prems(2) by simp_all
  have in1: "snd p sdiv 4 < int (length cells)" using p by (simp add: sdiv_nonneg)
  have in0: "0 \<le> snd p sdiv 4" using p by (simp add: sdiv_nonneg)
  have "int (length (cells ! nat (snd p sdiv 4))) = width"
    using Cons.prems(1) in1 in0 by simp
  then have in2: "fst p sdiv 2 < int (length (cells ! nat (snd p sdiv 4)))"
    using p by (simp add: sdiv_nonneg)
  have lit: "dotLit ?c (fst p) (snd p)"
    using dotLit_setBrailleDot_same [OF p(1) p(3) in1 in2] .
  from Cons.IH [of ?c] shape Cons.prems(2)
  have IH: "(\<forall>row \<in> set (fold (\<lambda>p c. setBrailleDot c (fst p) (snd p)) ps ?c). int (length row) = width)"
    "length (fold (\<lambda>p c. setBrailleDot c (fst p) (snd p)) ps ?c) = length cells"
    "(\<forall>p \<in> set ps. dotLit (fold (\<lambda>p c. setBrailleDot c (fst p) (snd p)) ps ?c) (fst p) (snd p))"
    "(\<forall>x y. dotLit ?c x y \<longrightarrow> dotLit (fold (\<lambda>p c. setBrailleDot c (fst p) (snd p)) ps ?c) x y)"
    by simp_all
  show ?case using IH lit dotLit_setBrailleDot_mono by simp
qed

subsection \<open>C2: a solid segment is a connected path that ends at its end point\<close>

text \<open>
  Claim C2.  Take a grid whose rows all have \<open>width\<close> cells, two dots \<open>(x0, y0)\<close> and
  \<open>(x1, y1)\<close> inside it (whatever their distance, so also when the dot columns differ by
  more than 1, and whatever the sign of the slope) and a dash style with \<open>on = period\<close>.
  Then \<open>drawLine\<close> returns, the dots it hands to its callback, in order, start at
  \<open>(x0, y0)\<close>, end at \<open>(x1, y1)\<close> and each touches the one before (no gap), and after the
  call with the closure of \<open>plotSeries\<close> every one of these dots, the end point included,
  is set in the grid.
\<close>

theorem drawLine_connected_path:
  assumes "\<forall>row \<in> set cells. int (length row) = width"
    and "0 \<le> x0 \<and> x0 < 2 * width" and "0 \<le> x1 \<and> x1 < 2 * width"
    and "0 \<le> y0 \<and> y0 < 4 * int (length cells)" and "0 \<le> y1 \<and> y1 < 4 * int (length cells)"
    and "on style = period style"
  shows "\<exists>ps cells'.
           drawLine x0 y0 x1 y1 (\<lambda>x y acc. acc @ [(x, y)]) [] = Some ps
           \<and> ps \<noteq> [] \<and> hd ps = (x0, y0) \<and> last ps = (x1, y1)
           \<and> successively adjacentDots ps
           \<and> drawLine x0 y0 x1 y1 (plotSeries_plot style) cells = Some cells'
           \<and> (\<forall>p \<in> set ps. dotLit cells' (fst p) (snd p))"
proof -
  obtain ps where
    run: "\<And>(plot :: int \<Rightarrow> int \<Rightarrow> cells \<Rightarrow> cells) s.
            drawLine x0 y0 x1 y1 plot s = Some (fold (\<lambda>p. plot (fst p) (snd p)) ps s)"
    and log: "drawLine x0 y0 x1 y1 (\<lambda>x y acc. acc @ [(x, y)]) [] = Some ps"
    and ne: "ps \<noteq> []" and hd: "hd ps = (x0, y0)" and last: "last ps = (x1, y1)"
    and chain: "successively adjacentDots ps"
    and box: "\<forall>p \<in> set ps. between x0 x1 (fst p) \<and> between y0 y1 (snd p)"
    using drawLine_path [of x0 y0 x1 y1] by blast
  have plot: "plotSeries_plot style = (\<lambda>x y c. setBrailleDot c x y)"
    using shouldPlot_always [OF assms(6)] by (simp add: plotSeries_plot_def fun_eq_iff)
  have inside: "\<forall>p \<in> set ps. 0 \<le> fst p \<and> fst p < 2 * width \<and> 0 \<le> snd p \<and> snd p < 4 * int (length cells)"
    using box assms(2-5) by (auto simp: between_def)
  let ?c = "fold (\<lambda>p c. setBrailleDot c (fst p) (snd p)) ps cells"
  have draw: "drawLine x0 y0 x1 y1 (plotSeries_plot style) cells = Some ?c"
    using run [of "plotSeries_plot style" cells] by (simp add: plot)
  have lit: "\<forall>p \<in> set ps. dotLit ?c (fst p) (snd p)"
    using dotLit_fold [OF assms(1) inside] by (rule conjunct2 [THEN conjunct2, THEN conjunct1])
  show ?thesis
    by (intro exI [of _ ps] exI [of _ ?c] conjI) (fact log ne hd last chain draw lit)+
qed

theorem drawLine_connected_path_witness:
  "on (lineStyles ! 0) = period (lineStyles ! 0)
   \<and> (\<exists>ps cells'.
           drawLine 0 7 2 1 (\<lambda>x y acc. acc @ [(x, y)]) [] = Some ps
           \<and> ps \<noteq> [] \<and> hd ps = (0, 7) \<and> last ps = (2, 1)
           \<and> successively adjacentDots ps
           \<and> drawLine 0 7 2 1 (plotSeries_plot (lineStyles ! 0)) (replicate 2 (replicate 3 0)) = Some cells'
           \<and> (\<forall>p \<in> set ps. dotLit cells' (fst p) (snd p)))"
proof -
  have h1: "\<forall>row \<in> set (replicate 2 (replicate 3 (0 :: 8 word))). int (length row) = 3" by simp
  have h2: "0 \<le> (0::int) \<and> (0::int) < 2 * 3" and h3: "0 \<le> (2::int) \<and> (2::int) < 2 * 3" by simp_all
  have h4: "0 \<le> (7::int) \<and> (7::int) < 4 * int (length (replicate 2 (replicate 3 (0 :: 8 word))))"
    and h5: "0 \<le> (1::int) \<and> (1::int) < 4 * int (length (replicate 2 (replicate 3 (0 :: 8 word))))"
    by simp_all
  have h6: "on (lineStyles ! 0) = period (lineStyles ! 0)" by (simp add: lineStyles_def)
  from h6 drawLine_connected_path [OF h1 h2 h3 h4 h5 h6] show ?thesis by (intro conjI)
qed

subsection \<open>C9: the composed cell\<close>

lemma composeCell_snoc:
  "composeCell (gs @ [g]) x y =
     (case composeCell gs x y of
        (m, colorIdx) \<Rightarrow>
          if y < 0 \<or> y \<ge> int (length g) then (m, colorIdx)
          else if x < 0 \<or> x \<ge> int (length (g ! nat y)) then (m, colorIdx)
          else if g ! nat y ! nat x = 0 then (m, colorIdx)
          else (m OR g ! nat y ! nat x, if colorIdx = - 1 then int (length gs) else colorIdx))"
  by (simp add: composeCell_def enumerate_append_eq Let_def split: prod.splits)

lemma composeCell_Nil: "composeCell [] x y = (0, - 1)"
  by (simp add: composeCell_def)

text \<open>
  Claim C9.  For a list of dot grids and a cell position \<open>(x, y)\<close> that lies in every one of
  them (as it does when the grids have the same size and the position is a cell of theirs),
  the mask that \<open>composeCell\<close> returns is the bitwise OR of the masks of all series at
  \<open>(x, y)\<close>: a bit is set in it exactly when it is set in the mask of some series.  The
  colour index it returns is \<open>- 1\<close> (none) when the mask of every series is zero there, and
  otherwise the lowest index of a series whose mask there is not zero.
\<close>

theorem composeCell_or_and_owner:
  assumes "\<forall>i < length gs. 0 \<le> y \<and> y < int (length (gs ! i)) \<and> 0 \<le> x \<and> x < int (length (gs ! i ! nat y))"
  shows "(\<forall>n. bit (fst (composeCell gs x y)) n \<longleftrightarrow> (\<exists>i < length gs. bit (gs ! i ! nat y ! nat x) n))
       \<and> (snd (composeCell gs x y) = - 1 \<and> (\<forall>i < length gs. gs ! i ! nat y ! nat x = 0)
          \<or> 0 \<le> snd (composeCell gs x y) \<and> nat (snd (composeCell gs x y)) < length gs
            \<and> gs ! nat (snd (composeCell gs x y)) ! nat y ! nat x \<noteq> 0
            \<and> (\<forall>j < nat (snd (composeCell gs x y)). gs ! j ! nat y ! nat x = 0))"
  using assms
proof (induction gs rule: rev_induct)
  case Nil
  then show ?case by (simp add: composeCell_Nil)
next
  case (snoc g gs)
  obtain m c where mc: "composeCell gs x y = (m, c)" by (cases "composeCell gs x y")
  have pre: "\<forall>i < length gs. 0 \<le> y \<and> y < int (length (gs ! i)) \<and> 0 \<le> x \<and> x < int (length (gs ! i ! nat y))"
    using snoc.prems by (auto simp: nth_append split: if_splits)
  have g: "0 \<le> y" "y < int (length g)" "0 \<le> x" "x < int (length (g ! nat y))"
    using snoc.prems [rule_format, of "length gs"] by simp_all
  from snoc.IH [OF pre] mc
  have bits: "\<And>n. bit m n \<longleftrightarrow> (\<exists>i < length gs. bit (gs ! i ! nat y ! nat x) n)"
    and own: "c = - 1 \<and> (\<forall>i < length gs. gs ! i ! nat y ! nat x = 0)
          \<or> 0 \<le> c \<and> nat c < length gs \<and> gs ! nat c ! nat y ! nat x \<noteq> 0
            \<and> (\<forall>j < nat c. gs ! j ! nat y ! nat x = 0)"
    by simp_all
  let ?v = "g ! nat y ! nat x"
  have nth: "(gs @ [g]) ! i = (if i < length gs then gs ! i else g)" if "i < Suc (length gs)" for i
    using that by (auto simp: nth_append)
  show ?case
  proof (cases "?v = 0")
    case True
    then have eq: "composeCell (gs @ [g]) x y = (m, c)"
      using g mc by (simp add: composeCell_snoc)
    have "(\<exists>i < Suc (length gs). bit ((gs @ [g]) ! i ! nat y ! nat x) n)
        \<longleftrightarrow> (\<exists>i < length gs. bit (gs ! i ! nat y ! nat x) n)" for n
      using True by (auto simp: nth_append less_Suc_eq)
    moreover have "(\<forall>i < Suc (length gs). (gs @ [g]) ! i ! nat y ! nat x = 0)
        \<longleftrightarrow> (\<forall>i < length gs. gs ! i ! nat y ! nat x = 0)"
      using True by (auto simp: nth_append less_Suc_eq)
    ultimately show ?thesis
      using own bits unfolding eq by (auto simp: nth_append)
  next
    case False
    then have eq: "composeCell (gs @ [g]) x y = (m OR ?v, if c = - 1 then int (length gs) else c)"
      using g mc by (simp add: composeCell_snoc)
    have b: "bit (m OR ?v) n \<longleftrightarrow> (\<exists>i < Suc (length gs). bit ((gs @ [g]) ! i ! nat y ! nat x) n)" for n
      using bits by (auto simp: bit_or_iff nth_append less_Suc_eq)
    show ?thesis
      using own False unfolding eq
      by (auto simp: b nth_append)
  qed
qed


theorem composeCell_or_and_owner_witness:
  "(\<forall>n. bit (fst (composeCell [[[0, 0]], [[5, 0]], [[3, 1]]] 0 0)) n
        \<longleftrightarrow> (\<exists>i < length [[[0, 0]], [[5, 0]], [[3, 1 :: 8 word]]].
               bit ([[[0, 0]], [[5, 0]], [[3, 1 :: 8 word]]] ! i ! nat 0 ! nat 0) n))
   \<and> composeCell [[[0, 0]], [[5, 0]], [[3, 1]]] 0 0 = (7, 1)"
proof -
  let ?G = "[[[0, 0]], [[5, 0]], [[3, 1 :: 8 word]]]"
  have h: "\<forall>i < length ?G. 0 \<le> (0::int) \<and> (0::int) < int (length (?G ! i))
      \<and> 0 \<le> (0::int) \<and> (0::int) < int (length (?G ! i ! nat 0))"
    by (simp add: All_less_Suc numeral_3_eq_3)
  have "composeCell ?G 0 0 = (7, 1)"
    by (simp add: composeCell_def)
  with composeCell_or_and_owner [OF h] show ?thesis by blast
qed

subsection \<open>plotSeries: no step panics, and what is written\<close>

lemma filterSeries_fold:
  "fold (\<lambda>s out. if length (Values s) = 0 then out else out @ [s]) series acc
     = acc @ filter (\<lambda>s. Values s \<noteq> []) series"
  by (induction series arbitrary: acc) simp_all

lemma filterSeries_eq: "filterSeries series = filter (\<lambda>s. Values s \<noteq> []) series"
  unfolding filterSeries_def filterSeries_fold by simp

lemma maxSeriesLen_fold:
  "m \<le> fold (\<lambda>s maxLen. if int (length (Values s)) > maxLen then int (length (Values s)) else maxLen) series m
   \<and> (\<forall>s \<in> set series. int (length (Values s))
        \<le> fold (\<lambda>s maxLen. if int (length (Values s)) > maxLen then int (length (Values s)) else maxLen) series m)"
proof (induction series arbitrary: m)
  case Nil
  then show ?case by simp
next
  case (Cons a series)
  let ?m = "if int (length (Values a)) > m then int (length (Values a)) else m"
  from Cons [of ?m] show ?case by (auto split: if_splits)
qed

lemma maxSeriesLen_pos:
  assumes "filterSeries series \<noteq> []"
  shows "maxSeriesLen (filterSeries series) \<noteq> 0"
proof -
  obtain s where s: "s \<in> set (filterSeries series)" using assms by (cases "filterSeries series") auto
  then have "Values s \<noteq> []" by (simp add: filterSeries_eq)
  moreover have "int (length (Values s)) \<le> maxSeriesLen (filterSeries series)"
    using maxSeriesLen_fold [of 0 "filterSeries series"] s by (simp add: maxSeriesLen_def)
  ultimately show ?thesis by auto
qed

lemma utf8_RuneCountInString_axis [simp]:
  "utf8_RuneCountInString axisLabelTop = 4" "utf8_RuneCountInString axisSeparator = 5"
  "utf8_RuneCountInString axisLabelMid = 3" "utf8_RuneCountInString axisLabelBottom = 2"
  "utf8_RuneCountInString [] = 0"
  by (simp_all add: utf8_RuneCountInString_def axisLabelTop_def axisSeparator_def
      axisLabelMid_def axisLabelBottom_def)

lemma PlotWidthFor_ge: "minPlotWidth \<le> PlotWidthFor totalWidth"
  by (simp add: PlotWidthFor_def Let_def minPlotWidth_def)

lemma plotSeries_width_ge: "minPlotWidth \<le> plotSeries_width e width"
  by (simp add: plotSeries_width_def Let_def minPlotWidth_def)

lemma plotSeries_width_eq:
  "plotSeries_width e width = max 10 (if width \<le> 0 then autoPlotWidth e else width)"
  by (simp add: plotSeries_width_def Let_def minPlotWidth_def)

lemma plotSeries_height_pos: "1 \<le> plotSeries_height height"
  by (simp add: plotSeries_height_def defaultPlotHeight_def)

lemma plotSeries_scaled_eq:
  assumes "\<forall>s \<in> set series. Values s \<noteq> []" and "1 \<le> width"
  shows "plotSeries_scaled series width
      = Some (map (\<lambda>s. \<lparr>Name = Name s, Values = the (resampleSeries (Values s) width)\<rparr>) series)"
    and "\<forall>s \<in> set series. int (length (the (resampleSeries (Values s) width))) = width"
proof -
  have r: "\<exists>out. resampleSeries (Values s) width = Some out \<and> int (length out) = width"
    if "s \<in> set series" for s
    using that assms by (intro resampleSeries_returns) auto
  show "plotSeries_scaled series width
      = Some (map (\<lambda>s. \<lparr>Name = Name s, Values = the (resampleSeries (Values s) width)\<rparr>) series)"
    unfolding plotSeries_scaled_def
    by (rule those_map_Some) (use r in fastforce)
  show "\<forall>s \<in> set series. int (length (the (resampleSeries (Values s) width))) = width"
    using r by fastforce
qed

lemma makeCells_eq:
  "0 \<le> height \<Longrightarrow> 0 \<le> width \<Longrightarrow>
     makeCells height width = Some (replicate (nat height) (replicate (nat width) 0))"
  by (simp add: makeCells_def)

text \<open>The shape of a grid, the lengths of its rows, is never changed by drawing.\<close>

lemma shape_setBrailleDot [simp]: "map length (setBrailleDot cells x y) = map length cells"
  by (rule nth_equalityI) simp_all

lemma shape_plotSeries_plot [simp]: "map length (plotSeries_plot style x y cells) = map length cells"
  by (simp add: plotSeries_plot_def)

lemma shape_fold_plot:
  "map length (fold (\<lambda>p. plotSeries_plot style (fst p) (snd p)) ps cells) = map length cells"
  by (induction ps arbitrary: cells) simp_all

lemma plotSeries_sample_Some:
  "\<exists>c px py. plotSeries_sample style mm height xv (cells, prevX, prevY) = Some (c, px, py)
       \<and> map length c = map length cells"
proof -
  obtain x v where xv: "xv = (x, v)" by (cases xv)
  show ?thesis
  proof (cases "prevX \<ge> 0")
    case True
    let ?row0 = "valueToRow v (min_r mm) (max_r mm) (height * 4)"
    let ?row1 = "if ?row0 < 0 then 0 else ?row0"
    let ?py = "if ?row1 \<ge> height * 4 then height * 4 - 1 else ?row1"
    obtain ps where
      "\<And>(plot :: int \<Rightarrow> int \<Rightarrow> cells \<Rightarrow> cells) s.
         drawLine prevX prevY (int x * 2) ?py plot s = Some (fold (\<lambda>p. plot (fst p) (snd p)) ps s)"
      using drawLine_path [of prevX prevY "int x * 2" ?py] by blast
    then show ?thesis
      using True by (simp add: plotSeries_sample_def xv Let_def shape_fold_plot)
  next
    case False
    then show ?thesis by (simp add: plotSeries_sample_def xv Let_def)
  qed
qed

lemma foldM_plotSeries_sample:
  "\<exists>c px py. foldM (plotSeries_sample style mm height) xvs (cells, prevX, prevY) = Some (c, px, py)
       \<and> map length c = map length cells"
proof (induction xvs arbitrary: cells prevX prevY)
  case Nil
  then show ?case by simp
next
  case (Cons xv xvs)
  obtain c px py where
    s: "plotSeries_sample style mm height xv (cells, prevX, prevY) = Some (c, px, py)"
    and sh: "map length c = map length cells"
    using plotSeries_sample_Some by blast
  from Cons [of c px py] sh show ?case by (simp add: s)
qed


lemma index_lineStyles: "\<exists>style. index lineStyles (int i smod int (length lineStyles)) = Some style"
proof -
  have "int i smod 4 = int i mod 4" by (simp add: smod_nonneg)
  moreover have "0 \<le> int i mod 4" "int i mod 4 < 4" by simp_all
  ultimately show ?thesis by (simp add: index_def lineStyles_def)
qed

lemma index_colorPalette:
  assumes "0 \<le> c"
  shows "\<exists>color. index colorPalette (c smod int (length colorPalette)) = Some color
           \<and> color \<in> set colorPalette"
proof -
  have "c smod 5 = c mod 5" using assms by (simp add: smod_nonneg)
  moreover have "0 \<le> c mod 5" "c mod 5 < 5" by simp_all
  ultimately have "0 \<le> c smod int (length colorPalette)"
    "c smod int (length colorPalette) < int (length colorPalette)"
    by (simp_all add: colorPalette_def)
  then show ?thesis by (simp add: index_def)
qed

lemma plotSeries_series_Some:
  assumes "si < length grids" "si < length minMax"
  shows "\<exists>grids'. plotSeries_series minMax height (si, s) grids = Some grids'
           \<and> map (map length) grids' = map (map length) grids"
proof (cases "length (Values s) = 0")
  case True
  then show ?thesis by (simp add: plotSeries_series_def)
next
  case False
  obtain style where st: "index lineStyles (int si smod int (length lineStyles)) = Some style"
    using index_lineStyles by blast
  obtain c px py where
    f: "foldM (plotSeries_sample style (minMax ! si) height) (enumerate 0 (Values s)) (grids ! si, - 1, - 1)
          = Some (c, px, py)"
    and sh: "map length c = map length (grids ! si)"
    using foldM_plotSeries_sample by blast
  have "map (map length) (grids[si := c]) = map (map length) grids"
    using sh assms by (simp add: map_update list_update_same_conv)
  then show ?thesis
    using False assms st f by (simp add: plotSeries_series_def index_def store_def)
qed

lemma foldM_plotSeries_series:
  assumes "k + length ss \<le> length grids" "k + length ss \<le> length minMax"
  shows "\<exists>grids'. foldM (plotSeries_series minMax height) (enumerate k ss) grids = Some grids'
           \<and> map (map length) grids' = map (map length) grids"
  using assms
proof (induction ss arbitrary: k grids)
  case Nil
  then show ?case by simp
next
  case (Cons s ss)
  have "k < length grids" "k < length minMax" using Cons.prems by simp_all
  from plotSeries_series_Some [OF this, of height s]
  obtain g1 where g1: "plotSeries_series minMax height (k, s) grids = Some g1"
    and sh: "map (map length) g1 = map (map length) grids"
    by blast
  from sh have "length g1 = length grids" by (metis length_map)
  then have "Suc k + length ss \<le> length g1" "Suc k + length ss \<le> length minMax"
    using Cons.prems by simp_all
  from Cons.IH [OF this] sh show ?case by (simp add: g1)
qed

lemma plotSeries_seriesCells_Some:
  assumes "0 \<le> height" "0 \<le> width"
  shows "\<exists>grids. plotSeries_seriesCells scaled (plotSeries_minMax scaled) height width = Some grids
           \<and> map (map length) grids
              = replicate (length scaled) (replicate (nat height) (nat width))"
proof -
  let ?empty = "replicate (length scaled) (replicate (nat height) (replicate (nat width) (0 :: 8 word)))"
  have e: "those (map (\<lambda>s. makeCells height width) scaled) = Some ?empty"
    using those_map_Some [of scaled "\<lambda>s. makeCells height width"
        "\<lambda>s. replicate (nat height) (replicate (nat width) 0)"] assms
    by (simp add: makeCells_eq map_replicate_const)
  have "0 + length scaled \<le> length ?empty" "0 + length scaled \<le> length (plotSeries_minMax scaled)"
    by (simp_all add: plotSeries_minMax_def)
  from foldM_plotSeries_series [OF this]
  obtain grids where "foldM (plotSeries_series (plotSeries_minMax scaled) height) (enumerate 0 scaled) ?empty
      = Some grids" "map (map length) grids = map (map length) ?empty"
    by blast
  then show ?thesis by (simp add: plotSeries_seriesCells_def e)
qed

lemma makeAxisLabels_eq:
  assumes "1 \<le> height"
  shows "makeAxisLabels height
     = Some (map (\<lambda>y. if int y = height - 1 \<and> 1 < height then axisLabelBottom
                      else if int y = height div 2 \<and> 2 < height then axisLabelMid
                      else if y = 0 then axisLabelTop else [])
             [0..<nat height])"
proof -
  have d: "height sdiv 2 = height div 2" using assms by (simp add: sdiv_nonneg)
  have b: "0 \<le> height div 2" "height div 2 < height" using assms by simp_all
  define l1 where "l1 = (replicate (nat height) ([] :: string))[0 := axisLabelTop]"
  define l2 where "l2 = (if height > 2 then l1[nat (height div 2) := axisLabelMid] else l1)"
  define l3 where "l3 = (if height > 1 then l2[nat (height - 1) := axisLabelBottom] else l2)"
  have m: "makeAxisLabels height = Some l3"
    using assms b by (simp add: makeAxisLabels_def store_def d Let_def l1_def l2_def l3_def)
  have "l3 = map (\<lambda>y. if int y = height - 1 \<and> 1 < height then axisLabelBottom
                      else if int y = height div 2 \<and> 2 < height then axisLabelMid
                      else if y = 0 then axisLabelTop else [])
             [0..<nat height]"
    using assms b
    by (intro nth_equalityI) (auto simp: l1_def l2_def l3_def nth_list_update nat_eq_iff)
  with m show ?thesis by simp
qed

lemma Fprintln_writeLines: "Fprintln w l = writeLines w [l]"
  by (cases "Fprintln w l") (auto split: option.splits)

lemma writeLines_append:
  "writeLines w (ls @ ls') =
     (case writeLines w ls of (w', Some err) \<Rightarrow> (w', Some err) | (w', None) \<Rightarrow> writeLines w' ls')"
  by (induction ls arbitrary: w) (auto split: prod.splits option.splits)

lemma andThen_writeLines:
  "andThen (Some (writeLines w ls)) (\<lambda>w'. Some (writeLines w' ls')) = Some (writeLines w (ls @ ls'))"
  by (auto simp: andThen_def writeLines_append split: prod.splits option.splits)

lemma writeEach_writeLines:
  assumes "\<And>x w. x \<in> set xs \<Longrightarrow> f x w = Some (Fprintln w (g x))"
  shows "writeEach f xs w = Some (writeLines w (map g xs))"
  using assms
proof (induction xs arbitrary: w)
  case Nil
  then show ?case by simp
next
  case (Cons x xs)
  have ih: "writeEach f xs = (\<lambda>w'. Some (writeLines w' (map g xs)))"
    using Cons by (intro ext) simp
  have "f x w = Some (writeLines w [g x])"
    using Cons.prems [of x w] by (simp add: Fprintln_writeLines del: writeLines.simps)
  then have "writeEach f (x # xs) w
      = andThen (Some (writeLines w [g x])) (\<lambda>w'. Some (writeLines w' (map g xs)))"
    by (simp add: ih del: writeLines.simps)
  then show ?case by (simp only: andThen_writeLines) simp
qed

lemma plotSeries_cell_Some:
  "\<exists>cs. plotSeries_cell grids useColor x y = Some cs"
proof (cases "composeCell grids x y")
  case (Pair m c)
  show ?thesis
  proof (cases "useColor \<and> c \<ge> 0")
    case True
    then obtain color where "index colorPalette (c smod int (length colorPalette)) = Some color"
      using index_colorPalette by blast
    then show ?thesis using True Pair by (simp add: plotSeries_cell_def)
  next
    case False
    then show ?thesis using Pair by (auto simp: plotSeries_cell_def)
  qed
qed

lemma plotSeries_rowText_Some:
  assumes "y < length labels"
  shows "\<exists>cs. length cs = nat width
     \<and> (\<forall>x < nat width. plotSeries_cell grids useColor (int x) (int y) = Some (cs ! x))
     \<and> plotSeries_rowText grids useColor labels lw width y
        = Some (fmt_pad lw (labels ! y) @ axisSeparator @ concat cs)"
proof -
  let ?cs = "map (\<lambda>x. the (plotSeries_cell grids useColor (int x) (int y))) [0..<nat width]"
  have t: "those (map (\<lambda>x. plotSeries_cell grids useColor (int x) (int y)) [0..<nat width]) = Some ?cs"
    by (rule those_map_total) (use plotSeries_cell_Some in \<open>simp add: option.distinct\<close>)
  have "\<forall>x < nat width. plotSeries_cell grids useColor (int x) (int y) = Some (?cs ! x)"
    using plotSeries_cell_Some [of grids useColor _ "int y"] by fastforce
  then show ?thesis
    using assms t by (intro exI [of _ ?cs]) (simp add: plotSeries_rowText_def index_def)
qed

lemma plotSeries_rangeText_eq:
  assumes "i < length minMax"
  shows "plotSeries_rangeText minMax (i, s)
     = Some (Name s @ '': min='' @ fmt_f2 (min_r (minMax ! i)) @ '' max='' @ fmt_f2 (max_r (minMax ! i)))"
  using assms by (simp add: plotSeries_rangeText_def index_def)

lemma renderLegend_label_Some:
  "\<exists>l. renderLegend_label useColor (i, s) = Some l"
proof -
  obtain style where st: "index lineStyles (int i smod int (length lineStyles)) = Some style"
    using index_lineStyles by blast
  obtain color where "index colorPalette (int i smod int (length colorPalette)) = Some color"
    using index_colorPalette [of "int i"] by auto
  then show ?thesis using st by (simp add: renderLegend_label_def Let_def)
qed

lemma renderLegend_Some:
  "\<exists>parts. length parts = length series
      \<and> (\<forall>i < length series. renderLegend_label useColor (i, series ! i) = Some (parts ! i))
      \<and> renderLegend series useColor = Some (''Legend: '' @ strings_Join parts ''  '')"
proof -
  let ?parts = "map (\<lambda>is. the (renderLegend_label useColor is)) (enumerate 0 series)"
  have t: "those (map (renderLegend_label useColor) (enumerate 0 series)) = Some ?parts"
    by (rule those_map_total) (use renderLegend_label_Some in \<open>auto simp: option.distinct\<close>)
  have "\<forall>i < length series. renderLegend_label useColor (i, series ! i) = Some (?parts ! i)"
    using renderLegend_label_Some [of useColor] by (fastforce simp: nth_enumerate_eq)
  then show ?thesis using t by (intro exI [of _ ?parts]) (simp add: renderLegend_def)
qed

lemma plotSeries_lines_struct:
  fixes e useColor title series0 width0 height0
  defines "series \<equiv> filterSeries series0"
    and "H \<equiv> plotSeries_height height0"
    and "W \<equiv> plotSeries_width e width0"
  defines "scaled \<equiv> map (\<lambda>s. \<lparr>Name = Name s, Values = the (resampleSeries (Values s) W)\<rparr>) series"
  obtains grids labels rows parts where
    "plotSeries_scaled series W = Some scaled"
    "\<forall>s \<in> set scaled. int (length (Values s)) = W"
    "plotSeries_seriesCells scaled (plotSeries_minMax scaled) H W = Some grids"
    "map (map length) grids = replicate (length scaled) (replicate (nat H) (nat W))"
    "makeAxisLabels H = Some labels"
    "labels = map (\<lambda>y. if int y = H - 1 \<and> 1 < H then axisLabelBottom
                      else if int y = H div 2 \<and> 2 < H then axisLabelMid
                      else if y = 0 then axisLabelTop else [])
             [0..<nat H]"
    "length rows = nat H"
    "\<forall>y < nat H. \<exists>cs. length cs = nat W
        \<and> (\<forall>x < nat W. plotSeries_cell grids useColor (int x) (int y) = Some (cs ! x))
        \<and> rows ! y = fmt_pad 4 (labels ! y) @ axisSeparator @ concat cs"
    "length parts = length scaled"
    "\<forall>i < length scaled. renderLegend_label useColor (i, scaled ! i) = Some (parts ! i)"
    "plotSeries_lines e useColor title series0 width0 height0
       = Some ((if title \<noteq> [] then [title] else []) @ [scaleNote]
           @ map (\<lambda>is. Name (snd is) @ '': min='' @ fmt_f2 (min_r (plotSeries_minMax scaled ! fst is))
                       @ '' max='' @ fmt_f2 (max_r (plotSeries_minMax scaled ! fst is)))
               (enumerate 0 scaled)
           @ rows @ [''Legend: '' @ strings_Join parts ''  '', []])"
proof -
  have W: "1 \<le> W" "0 \<le> W" using plotSeries_width_ge [of e width0] by (simp_all add: W_def minPlotWidth_def)
  have H: "1 \<le> H" "0 \<le> H" using plotSeries_height_pos [of height0] by (simp_all add: H_def)
  have ne: "\<forall>s \<in> set series. Values s \<noteq> []" by (simp add: series_def filterSeries_eq)
  have sc: "plotSeries_scaled series W = Some scaled"
    and len: "\<forall>s \<in> set series. int (length (the (resampleSeries (Values s) W))) = W"
    using plotSeries_scaled_eq [OF ne W(1)] by (simp_all add: scaled_def)
  have len': "\<forall>s \<in> set scaled. int (length (Values s)) = W"
    using len by (simp add: scaled_def)
  obtain grids where g: "plotSeries_seriesCells scaled (plotSeries_minMax scaled) H W = Some grids"
    and gs: "map (map length) grids = replicate (length scaled) (replicate (nat H) (nat W))"
    using plotSeries_seriesCells_Some [OF H(2) W(2)] by blast
  let ?labels = "map (\<lambda>y. if int y = H - 1 \<and> 1 < H then axisLabelBottom
                      else if int y = H div 2 \<and> 2 < H then axisLabelMid
                      else if y = 0 then axisLabelTop else [])
             [0..<nat H]"
  have lab: "makeAxisLabels H = Some ?labels" by (rule makeAxisLabels_eq [OF H(1)])
  let ?row = "plotSeries_rowText grids useColor ?labels (int (length axisLabelTop)) W"
  let ?rows = "map (\<lambda>y. the (?row y)) [0..<nat H]"
  have row: "\<exists>cs. length cs = nat W
        \<and> (\<forall>x < nat W. plotSeries_cell grids useColor (int x) (int y) = Some (cs ! x))
        \<and> ?row y = Some (fmt_pad 4 (?labels ! y) @ axisSeparator @ concat cs)" if "y < nat H" for y
    using plotSeries_rowText_Some [of y ?labels W grids useColor "int (length axisLabelTop)"] that
    by (simp add: axisLabelTop_def)
  have rows: "those (map ?row [0..<nat H]) = Some ?rows"
    by (rule those_map_total) (use row in fastforce)
  have rows': "\<forall>y < nat H. \<exists>cs. length cs = nat W
        \<and> (\<forall>x < nat W. plotSeries_cell grids useColor (int x) (int y) = Some (cs ! x))
        \<and> ?rows ! y = fmt_pad 4 (?labels ! y) @ axisSeparator @ concat cs"
    using row by fastforce
  let ?range = "\<lambda>is. Name (snd is) @ '': min='' @ fmt_f2 (min_r (plotSeries_minMax scaled ! fst is))
                       @ '' max='' @ fmt_f2 (max_r (plotSeries_minMax scaled ! fst is))"
  have ranges: "those (map (plotSeries_rangeText (plotSeries_minMax scaled)) (enumerate 0 scaled))
      = Some (map ?range (enumerate 0 scaled))"
  proof (rule those_map_Some)
    fix p assume "p \<in> set (enumerate 0 scaled)"
    then have "fst p < length (plotSeries_minMax scaled)"
      by (auto simp: in_set_enumerate_eq plotSeries_minMax_def)
    then show "plotSeries_rangeText (plotSeries_minMax scaled) p = Some (?range p)"
      using plotSeries_rangeText_eq [of "fst p" _ "snd p"] by simp
  qed
  obtain parts where p: "length parts = length scaled"
    "\<forall>i < length scaled. renderLegend_label useColor (i, scaled ! i) = Some (parts ! i)"
    "renderLegend scaled useColor = Some (''Legend: '' @ strings_Join parts ''  '')"
    using renderLegend_Some by blast
  have "plotSeries_lines e useColor title series0 width0 height0
       = Some ((if title \<noteq> [] then [title] else []) @ [scaleNote]
           @ map ?range (enumerate 0 scaled) @ ?rows @ [''Legend: '' @ strings_Join parts ''  '', []])"
    unfolding plotSeries_lines_def Let_def
    unfolding series_def [symmetric] H_def [symmetric] W_def [symmetric]
    by (simp add: sc g lab ranges rows p(3))
  then show ?thesis
    using that [of grids ?labels ?rows parts] sc len' g gs lab rows' p(1,2) by simp
qed

lemma plotSeries_empty:
  assumes "filterSeries series0 = []"
  shows "plotSeries e w title series0 width0 height0 forceColor = Some (w, None)"
  using assms by (simp add: plotSeries_def)

lemma plotSeries_eq_writeLines:
  assumes "filterSeries series0 \<noteq> []"
  shows "\<exists>ls. plotSeries_lines e (shouldUseColor e w forceColor) title series0 width0 height0 = Some ls
           \<and> plotSeries e w title series0 width0 height0 forceColor = Some (writeLines w ls)"
proof -
  let ?useColor = "shouldUseColor e w forceColor"
  let ?series = "filterSeries series0" and ?H = "plotSeries_height height0"
    and ?W = "plotSeries_width e width0"
  let ?scaled = "map (\<lambda>s. \<lparr>Name = Name s, Values = the (resampleSeries (Values s) ?W)\<rparr>) ?series"
  let ?minMax = "plotSeries_minMax ?scaled"
  let ?range = "\<lambda>is. Name (snd is) @ '': min='' @ fmt_f2 (min_r (?minMax ! fst is))
                       @ '' max='' @ fmt_f2 (max_r (?minMax ! fst is))"
  obtain grids labels rows parts where
    sc: "plotSeries_scaled ?series ?W = Some ?scaled"
    and g: "plotSeries_seriesCells ?scaled ?minMax ?H ?W = Some grids"
    and lab: "makeAxisLabels ?H = Some labels"
    and labels: "labels = map (\<lambda>y. if int y = ?H - 1 \<and> 1 < ?H then axisLabelBottom
                      else if int y = ?H div 2 \<and> 2 < ?H then axisLabelMid
                      else if y = 0 then axisLabelTop else [])
             [0..<nat ?H]"
    and nrows: "length rows = nat ?H"
    and rows: "\<forall>y < nat ?H. \<exists>cs. length cs = nat ?W
        \<and> (\<forall>x < nat ?W. plotSeries_cell grids ?useColor (int x) (int y) = Some (cs ! x))
        \<and> rows ! y = fmt_pad 4 (labels ! y) @ axisSeparator @ concat cs"
    and nparts: "length parts = length ?scaled"
    and parts: "\<forall>i < length ?scaled. renderLegend_label ?useColor (i, ?scaled ! i) = Some (parts ! i)"
    and lines: "plotSeries_lines e ?useColor title series0 width0 height0
       = Some ((if title \<noteq> [] then [title] else []) @ [scaleNote]
           @ map ?range (enumerate 0 ?scaled)
           @ rows @ [''Legend: '' @ strings_Join parts ''  '', []])"
    by (rule plotSeries_lines_struct [where e = e and ?width0.0 = width0 and ?series0.0 = series0
          and ?height0.0 = height0 and useColor = ?useColor and title = title])
  have legend: "renderLegend ?scaled ?useColor = Some (''Legend: '' @ strings_Join parts ''  '')"
  proof -
    have "those (map (renderLegend_label ?useColor) (enumerate 0 ?scaled)) = Some parts"
    proof -
      have "those (map (renderLegend_label ?useColor) (enumerate 0 ?scaled))
          = Some (map (\<lambda>is. parts ! fst is) (enumerate 0 ?scaled))"
        by (rule those_map_Some) (use parts in \<open>auto simp: in_set_enumerate_eq\<close>)
      moreover have "map (\<lambda>is. parts ! fst is) (enumerate 0 ?scaled) = parts"
        using nparts by (intro nth_equalityI) (simp_all add: nth_enumerate_eq)
      ultimately show ?thesis by simp
    qed
    then show ?thesis by (simp add: renderLegend_def)
  qed
  have rowText: "plotSeries_rowText grids ?useColor labels (int (length axisLabelTop)) ?W y = Some (rows ! y)"
    if "y < nat ?H" for y
  proof -
    have "y < length labels" using that labels by simp
    from plotSeries_rowText_Some [OF this, of ?W grids ?useColor "int (length axisLabelTop)"]
    obtain cs' where c': "length cs' = nat ?W"
      "\<forall>x < nat ?W. plotSeries_cell grids ?useColor (int x) (int y) = Some (cs' ! x)"
      "plotSeries_rowText grids ?useColor labels (int (length axisLabelTop)) ?W y
        = Some (fmt_pad (int (length axisLabelTop)) (labels ! y) @ axisSeparator @ concat cs')"
      by blast
    from rows that obtain cs where c: "length cs = nat ?W"
      "\<forall>x < nat ?W. plotSeries_cell grids ?useColor (int x) (int y) = Some (cs ! x)"
      "rows ! y = fmt_pad 4 (labels ! y) @ axisSeparator @ concat cs"
      by blast
    have "cs = cs'" using c(1,2) c'(1,2) by (intro nth_equalityI) auto
    then show ?thesis using c(3) c'(3) by (simp add: axisLabelTop_def)
  qed
  have w_rows: "writeEach (plotSeries_row grids ?useColor labels (int (length axisLabelTop)) ?W)
      [0..<nat ?H] w' = Some (writeLines w' rows)" for w'
  proof -
    have "writeEach (plotSeries_row grids ?useColor labels (int (length axisLabelTop)) ?W)
      [0..<nat ?H] w' = Some (writeLines w' (map (\<lambda>y. rows ! y) [0..<nat ?H]))"
      by (rule writeEach_writeLines) (simp add: plotSeries_row_def rowText)
    moreover have "map (\<lambda>y. rows ! y) [0..<nat ?H] = rows"
      using nrows by (intro nth_equalityI) simp_all
    ultimately show ?thesis by simp
  qed
  have w_ranges: "writeEach (plotSeries_rangeLine ?minMax) (enumerate 0 ?scaled) w'
      = Some (writeLines w' (map ?range (enumerate 0 ?scaled)))" for w'
  proof (rule writeEach_writeLines)
    fix p w'' assume "p \<in> set (enumerate 0 ?scaled)"
    then have "fst p < length ?minMax"
      by (auto simp: in_set_enumerate_eq plotSeries_minMax_def)
    then show "plotSeries_rangeLine ?minMax p w'' = Some (Fprintln w'' (?range p))"
      using plotSeries_rangeText_eq [of "fst p" ?minMax "snd p"]
      by (simp add: plotSeries_rangeLine_def Fprintln_def)
  qed
  have w_title: "(if title \<noteq> [] then Some (Fprintln w title) else Some (w, None))
      = Some (writeLines w (if title \<noteq> [] then [title] else []))"
    by (simp add: Fprintln_writeLines del: writeLines.simps(2))
  have ne: "length ?series \<noteq> 0" "maxSeriesLen ?series \<noteq> 0"
    using assms maxSeriesLen_pos [OF assms] by simp_all
  have "plotSeries e w title series0 width0 height0 forceColor
      = andThen (Some (writeLines w (if title \<noteq> [] then [title] else []))) (\<lambda>w.
        andThen (Some (writeLines w [scaleNote])) (\<lambda>w.
        andThen (Some (writeLines w (map ?range (enumerate 0 ?scaled)))) (\<lambda>w.
        andThen (Some (writeLines w rows)) (\<lambda>w.
        andThen (Some (writeLines w [''Legend: '' @ strings_Join parts ''  ''])) (\<lambda>w.
        Some (writeLines w [[]]))))))"
    unfolding plotSeries_def Let_def
    using ne
    by (simp add: sc g lab legend w_rows w_ranges w_title Fprintln_writeLines
        del: writeLines.simps(2))
  also have "\<dots> = Some (writeLines w ((if title \<noteq> [] then [title] else []) @ [scaleNote]
           @ map ?range (enumerate 0 ?scaled)
           @ rows @ [''Legend: '' @ strings_Join parts ''  '', []]))"
    by (simp only: andThen_writeLines) simp
  finally show ?thesis using lines by simp
qed

lemma writeLines_Cons_ok:
  "\<not> fails w (calls w) \<Longrightarrow>
     writeLines w (l # ls) = writeLines (w\<lparr>written := written w @ l @ [CHR 0x0A], calls := Suc (calls w)\<rparr>) ls"
  by (simp add: Fprintln_def Fprint_def)

lemma writeLines_Cons_fail:
  "fails w (calls w) \<Longrightarrow> writeLines w (l # ls) = (w\<lparr>calls := Suc (calls w)\<rparr>, Some WriteError)"
  by (simp add: Fprintln_def Fprint_def)


declare writeLines.simps(2) [simp del]

lemma writeLines_ok:
  assumes "\<forall>k < length ls. \<not> fails w (calls w + k)"
  shows "writeLines w ls
     = (w\<lparr>written := written w @ concat (map (\<lambda>l. l @ [CHR 0x0A]) ls), calls := calls w + length ls\<rparr>, None)"
  using assms
proof (induction ls arbitrary: w)
  case Nil
  then show ?case by simp
next
  case (Cons l ls)
  have f: "\<not> fails w (calls w)" using Cons.prems [rule_format, of 0] by simp
  let ?w = "w\<lparr>written := written w @ l @ [CHR 0x0A], calls := Suc (calls w)\<rparr>"
  have "\<not> fails ?w (calls ?w + k)" if "k < length ls" for k
    using Cons.prems [rule_format, of "Suc k"] that by simp
  then have "writeLines ?w ls
     = (?w\<lparr>written := written ?w @ concat (map (\<lambda>l. l @ [CHR 0x0A]) ls), calls := calls ?w + length ls\<rparr>, None)"
    by (intro Cons.IH) simp
  then show ?case unfolding writeLines_Cons_ok [OF f] by simp
qed

lemma writeLines_error:
  assumes "snd (writeLines w ls) \<noteq> None"
  shows "\<exists>k < length ls. fails w (calls w + k)"
proof (rule ccontr)
  assume "\<not> (\<exists>k < length ls. fails w (calls w + k))"
  then have "\<forall>k < length ls. \<not> fails w (calls w + k)" by simp
  from writeLines_ok [OF this] assms show False by simp
qed

lemma writeLines_written:
  "\<exists>out. written (fst (writeLines w ls)) = written w @ out
         \<and> set out \<subseteq> (\<Union>l \<in> set ls. set l) \<union> {CHR 0x0A}"
proof (induction ls arbitrary: w)
  case Nil
  show ?case by simp
next
  case (Cons l ls)
  show ?case
  proof (cases "fails w (calls w)")
    case True
    have "written (fst (writeLines w (l # ls))) = written w @ []"
      unfolding writeLines_Cons_fail [OF True] by simp
    then show ?thesis by (intro exI [of _ "[]"]) simp
  next
    case False
    let ?w = "w\<lparr>written := written w @ l @ [CHR 0x0A], calls := Suc (calls w)\<rparr>"
    obtain out where out: "written (fst (writeLines ?w ls)) = written ?w @ out"
      "set out \<subseteq> (\<Union>l \<in> set ls. set l) \<union> {CHR 0x0A}"
      using Cons [of ?w] by (elim exE conjE)
    have "written (fst (writeLines w (l # ls))) = written w @ (l @ [CHR 0x0A] @ out)"
      unfolding writeLines_Cons_ok [OF False] out(1) by simp
    moreover have "set (l @ [CHR 0x0A] @ out) \<subseteq> (\<Union>l \<in> set (l # ls). set l) \<union> {CHR 0x0A}"
      using out(2) by auto
    ultimately show ?thesis by (intro exI [of _ "l @ [CHR 0x0A] @ out"]) simp
  qed
qed

lemma writeLines_sink [simp]:
  "fails (fst (writeLines w ls)) = fails w"
  "is_os_File (fst (writeLines w ls)) = is_os_File w"
  "is_Terminal (fst (writeLines w ls)) = is_Terminal w"
proof (induction ls arbitrary: w)
  case Nil
  {
    case 1 show ?case by simp
  next
    case 2 show ?case by simp
  next
    case 3 show ?case by simp
  }
next
  case (Cons l ls)
  {
    case 1 show ?case using Cons(1) by (cases "fails w (calls w)") (simp_all add: writeLines_Cons_ok writeLines_Cons_fail)
  next
    case 2 show ?case using Cons(2) by (cases "fails w (calls w)") (simp_all add: writeLines_Cons_ok writeLines_Cons_fail)
  next
    case 3 show ?case using Cons(3) by (cases "fails w (calls w)") (simp_all add: writeLines_Cons_ok writeLines_Cons_fail)
  }
qed

subsection \<open>C7: no failure but a failed write\<close>

lemma writeLines_account:
  "calls w \<le> calls (fst (writeLines w ls))
   \<and> calls (fst (writeLines w ls)) \<le> calls w + length ls
   \<and> (\<forall>k. calls w \<le> k \<and> Suc k < calls (fst (writeLines w ls)) \<longrightarrow> \<not> fails w k)
   \<and> (snd (writeLines w ls) = None \<longrightarrow>
        calls (fst (writeLines w ls)) = calls w + length ls
        \<and> (\<forall>k. calls w \<le> k \<and> k < calls (fst (writeLines w ls)) \<longrightarrow> \<not> fails w k))
   \<and> (snd (writeLines w ls) \<noteq> None \<longrightarrow>
        calls w < calls (fst (writeLines w ls)) \<and> fails w (calls (fst (writeLines w ls)) - 1))"
proof (induction ls arbitrary: w)
  case Nil
  show ?case by auto
next
  case (Cons l ls)
  show ?case
  proof (cases "fails w (calls w)")
    case True
    show ?thesis unfolding writeLines_Cons_fail [OF True] using True by auto
  next
    case False
    let ?w = "w\<lparr>written := written w @ l @ [CHR 0x0A], calls := Suc (calls w)\<rparr>"
    let ?r = "writeLines ?w ls"
    have f: "fails ?w = fails w" and c: "calls ?w = Suc (calls w)" by simp_all
    note IH = Cons [of ?w, unfolded f c]
    have a: "Suc (calls w) \<le> calls (fst ?r)" and b: "calls (fst ?r) \<le> Suc (calls w) + length ls"
      and pre: "\<forall>k. Suc (calls w) \<le> k \<and> Suc k < calls (fst ?r) \<longrightarrow> \<not> fails w k"
      and ok: "snd ?r = None \<longrightarrow> calls (fst ?r) = Suc (calls w) + length ls
        \<and> (\<forall>k. Suc (calls w) \<le> k \<and> k < calls (fst ?r) \<longrightarrow> \<not> fails w k)"
      and bad: "snd ?r \<noteq> None \<longrightarrow> Suc (calls w) < calls (fst ?r) \<and> fails w (calls (fst ?r) - 1)"
      using IH by blast+
    have first: "\<not> fails w k" if "k = calls w" for k using that False by simp
    have pre': "\<forall>k. calls w \<le> k \<and> Suc k < calls (fst ?r) \<longrightarrow> \<not> fails w k"
    proof (intro allI impI)
      fix k assume k: "calls w \<le> k \<and> Suc k < calls (fst ?r)"
      show "\<not> fails w k"
      proof (cases "k = calls w")
        case True then show ?thesis by (rule first)
      next
        case False
        then have "Suc (calls w) \<le> k" using k by simp
        then show ?thesis using pre k by blast
      qed
    qed
    have ok': "snd ?r = None \<longrightarrow> calls (fst ?r) = calls w + length (l # ls)
        \<and> (\<forall>k. calls w \<le> k \<and> k < calls (fst ?r) \<longrightarrow> \<not> fails w k)"
    proof (intro impI conjI allI)
      assume n: "snd ?r = None"
      show "calls (fst ?r) = calls w + length (l # ls)" using ok n by simp
      fix k assume k: "calls w \<le> k \<and> k < calls (fst ?r)"
      show "\<not> fails w k"
      proof (cases "k = calls w")
        case True then show ?thesis by (rule first)
      next
        case False
        then have "Suc (calls w) \<le> k" using k by simp
        then show ?thesis using ok n k by blast
      qed
    qed
    have bad': "snd ?r \<noteq> None \<longrightarrow> calls w < calls (fst ?r) \<and> fails w (calls (fst ?r) - 1)"
      using bad by auto
    have a': "calls w \<le> calls (fst ?r)" using a by simp
    have b': "calls (fst ?r) \<le> calls w + length (l # ls)" using b by simp
    show ?thesis
      unfolding writeLines_Cons_ok [OF False]
      using a' b' pre' ok' bad' by (intro conjI)
  qed
qed

text \<open>
  Claim C7.  \<open>filterSeries\<close> drops the series without values and keeps the others, in
  order.  When none remains (also when the list of series is empty) \<open>plotSeries\<close> leaves the
  sink as it is, makes no \<open>Write\<close> call, and returns \<open>nil\<close>.  For every input \<open>plotSeries\<close>
  returns: no index, slice or allocation panics and every loop ends.  Of the \<open>Write\<close> calls
  it has made, all but the last succeeded.  If it returns an error, it has made a
  \<open>Write\<close> call and the last one it made is one that fails; if it returns \<open>nil\<close>, none of
  the \<open>Write\<close> calls it made failed.  On a sink whose writes all succeed it returns
  \<open>nil\<close>.
\<close>

theorem plotSeries_no_failure:
  "filterSeries series = filter (\<lambda>s. Values s \<noteq> []) series
   \<and> (filterSeries series = [] \<longrightarrow>
        plotSeries e w title series width height forceColor = Some (w, None))
   \<and> (\<exists>w' err. plotSeries e w title series width height forceColor = Some (w', err)
        \<and> calls w \<le> calls w'
        \<and> (\<forall>k. calls w \<le> k \<and> Suc k < calls w' \<longrightarrow> \<not> fails w k)
        \<and> (err \<noteq> None \<longrightarrow> calls w < calls w' \<and> fails w (calls w' - 1))
        \<and> (err = None \<longrightarrow> (\<forall>k. calls w \<le> k \<and> k < calls w' \<longrightarrow> \<not> fails w k))
        \<and> ((\<forall>k. \<not> fails w k) \<longrightarrow> err = None))"
proof (intro conjI)
  show "filterSeries series = filter (\<lambda>s. Values s \<noteq> []) series" by (rule filterSeries_eq)
  show "filterSeries series = [] \<longrightarrow>
        plotSeries e w title series width height forceColor = Some (w, None)"
    by (simp add: plotSeries_empty)
  show "\<exists>w' err. plotSeries e w title series width height forceColor = Some (w', err)
        \<and> calls w \<le> calls w'
        \<and> (\<forall>k. calls w \<le> k \<and> Suc k < calls w' \<longrightarrow> \<not> fails w k)
        \<and> (err \<noteq> None \<longrightarrow> calls w < calls w' \<and> fails w (calls w' - 1))
        \<and> (err = None \<longrightarrow> (\<forall>k. calls w \<le> k \<and> k < calls w' \<longrightarrow> \<not> fails w k))
        \<and> ((\<forall>k. \<not> fails w k) \<longrightarrow> err = None)"
  proof (cases "filterSeries series = []")
    case True
    then have "plotSeries e w title series width height forceColor = Some (w, None)"
      by (rule plotSeries_empty)
    then show ?thesis by (intro exI [of _ w] exI [of _ None]) auto
  next
    case False
    from plotSeries_eq_writeLines [OF False]
    obtain ls where
      run: "plotSeries e w title series width height forceColor = Some (writeLines w ls)"
      by blast
    let ?w = "fst (writeLines w ls)" and ?err = "snd (writeLines w ls)"
    note acc = writeLines_account [of w ls]
    have 1: "calls w \<le> calls ?w" using acc by (elim conjE)
    have 2: "\<forall>k. calls w \<le> k \<and> Suc k < calls ?w \<longrightarrow> \<not> fails w k" using acc by (elim conjE)
    have 3: "?err \<noteq> None \<longrightarrow> calls w < calls ?w \<and> fails w (calls ?w - 1)" using acc by (elim conjE)
    have 4: "?err = None \<longrightarrow> (\<forall>k. calls w \<le> k \<and> k < calls ?w \<longrightarrow> \<not> fails w k)"
      using acc by blast
    have 5: "(\<forall>k. \<not> fails w k) \<longrightarrow> ?err = None" using 3 by blast
    have 0: "plotSeries e w title series width height forceColor = Some (?w, ?err)"
      unfolding run by simp
    show ?thesis
      by (intro exI [of _ ?w] exI [of _ ?err] conjI) (fact 0 1 2 3 4 5)+
  qed
qed


theorem plotSeries_no_failure_witness:
  "plotSeries \<lparr>NO_COLOR = [], stdout_width = None\<rparr> \<lparr>is_os_File = False, is_Terminal = False, written = [], calls = 0, fails = (\<lambda>k. True)\<rparr> ''t'' [\<lparr>Name = ''A'', Values = []\<rparr>] 5 4 False = Some (\<lparr>is_os_File = False, is_Terminal = False, written = [], calls = 0, fails = (\<lambda>k. True)\<rparr>, None)
   \<and> (\<exists>w' err. plotSeries \<lparr>NO_COLOR = [], stdout_width = None\<rparr> \<lparr>is_os_File = False, is_Terminal = False, written = [], calls = 0, fails = (\<lambda>k. True)\<rparr> ''t'' [\<lparr>Name = ''A'', Values = [1]\<rparr>] 5 4 False = Some (w', err)
        \<and> calls \<lparr>is_os_File = False, is_Terminal = False, written = [], calls = 0, fails = (\<lambda>k. True)\<rparr> \<le> calls w'
        \<and> (err \<noteq> None \<longrightarrow> calls \<lparr>is_os_File = False, is_Terminal = False, written = [], calls = 0, fails = (\<lambda>k. True)\<rparr> < calls w' \<and> fails \<lparr>is_os_File = False, is_Terminal = False, written = [], calls = 0, fails = (\<lambda>k. True)\<rparr> (calls w' - 1)))"
proof -
  have "filterSeries [\<lparr>Name = ''A'', Values = []\<rparr>] = []" by (simp add: filterSeries_def)
  with plotSeries_no_failure [where series = "[\<lparr>Name = ''A'', Values = []\<rparr>]" and e = "\<lparr>NO_COLOR = [], stdout_width = None\<rparr>"
      and w = "\<lparr>is_os_File = False, is_Terminal = False, written = [], calls = 0, fails = (\<lambda>k. True)\<rparr>" and title = "''t''" and width = 5 and height = 4 and forceColor = False]
  have a: "plotSeries \<lparr>NO_COLOR = [], stdout_width = None\<rparr> \<lparr>is_os_File = False, is_Terminal = False, written = [], calls = 0, fails = (\<lambda>k. True)\<rparr> ''t'' [\<lparr>Name = ''A'', Values = []\<rparr>] 5 4 False = Some (\<lparr>is_os_File = False, is_Terminal = False, written = [], calls = 0, fails = (\<lambda>k. True)\<rparr>, None)"
    by blast
  from plotSeries_no_failure [where series = "[\<lparr>Name = ''A'', Values = [1]\<rparr>]" and e = "\<lparr>NO_COLOR = [], stdout_width = None\<rparr>"
      and w = "\<lparr>is_os_File = False, is_Terminal = False, written = [], calls = 0, fails = (\<lambda>k. True)\<rparr>" and title = "''t''" and width = 5 and height = 4 and forceColor = False]
  have b: "\<exists>w' err. plotSeries \<lparr>NO_COLOR = [], stdout_width = None\<rparr> \<lparr>is_os_File = False, is_Terminal = False, written = [], calls = 0, fails = (\<lambda>k. True)\<rparr> ''t'' [\<lparr>Name = ''A'', Values = [1]\<rparr>] 5 4 False = Some (w', err)
        \<and> calls \<lparr>is_os_File = False, is_Terminal = False, written = [], calls = 0, fails = (\<lambda>k. True)\<rparr> \<le> calls w'
        \<and> (err \<noteq> None \<longrightarrow> calls \<lparr>is_os_File = False, is_Terminal = False, written = [], calls = 0, fails = (\<lambda>k. True)\<rparr> < calls w' \<and> fails \<lparr>is_os_File = False, is_Terminal = False, written = [], calls = 0, fails = (\<lambda>k. True)\<rparr> (calls w' - 1))"
    by blast
  from a b show ?thesis by (intro conjI)
qed

subsection \<open>C3: output without colour\<close>

lemma char_of_not_ESC: "0 \<le> k \<Longrightarrow> k < 256 \<Longrightarrow> k \<noteq> 27 \<Longrightarrow> char_of (k::int) \<noteq> ESC"
proof
  assume k: "0 \<le> k" "k < 256" "k \<noteq> 27" and "char_of k = ESC"
  then have "of_char (char_of k) = (of_char ESC :: int)" by simp
  then show False using k by (simp add: ESC_def)
qed

lemma fmt_d_no_ESC: "0 \<le> n \<Longrightarrow> ESC \<notin> set (fmt_d n)"
proof (induction n rule: fmt_d.induct)
  case (1 n)
  have a: "char_of (48 + n mod 10) \<noteq> ESC" by (rule char_of_not_ESC) simp_all
  show ?case
  proof (cases "n < 10")
    case True
    have "char_of (48 + n) \<noteq> ESC" using True "1.prems" by (intro char_of_not_ESC) simp_all
    then show ?thesis using True by (subst fmt_d.simps) auto
  next
    case False
    then have "ESC \<notin> set (fmt_d (n div 10))" using 1 by simp
    then show ?thesis using False a by (subst fmt_d.simps) auto
  qed
qed

lemma round_half_even_nonneg: "0 \<le> x \<Longrightarrow> 0 \<le> round_half_even x"
  by (auto simp: round_half_even_def Let_def)

lemma fmt_f2_no_ESC: "ESC \<notin> set (fmt_f2 x)"
proof -
  have "char_of (48 + q div 10 mod 10) \<noteq> ESC" "char_of (48 + q mod 10) \<noteq> ESC" for q :: int
    by (rule char_of_not_ESC; simp)+
  then have "ESC \<noteq> char_of (48 + q div 10 mod 10)" "ESC \<noteq> char_of (48 + q mod 10)" for q :: int
    by (metis)+
  moreover have "ESC \<noteq> CHR 0x2D" "ESC \<noteq> CHR 0x2E" by (simp_all add: ESC_def)
  moreover have "0 \<le> round_half_even (\<bar>x\<bar> * 100) div 100"
    using round_half_even_nonneg [of "\<bar>x\<bar> * 100"] by (simp add: pos_imp_zdiv_nonneg_iff)
  ultimately show ?thesis
    by (simp add: fmt_f2_def Let_def fmt_d_no_ESC)
qed

lemma utf8_braille_no_ESC: "ESC \<notin> set (utf8_EncodeRune (brailleFromMask m))"
proof -
  let ?r = "brailleFromMask m"
  have "uint m < 2 ^ LENGTH(8)" by (rule unsigned_less)
  then have "uint m < 256" by simp
  then have r: "0x2800 \<le> ?r" "?r < 0x2900" by (simp_all add: brailleFromMask_def)
  then have e: "utf8_EncodeRune ?r
      = [char_of (0xE0 + ?r div 4096), char_of (0x80 + ?r div 64 mod 64), char_of (0x80 + ?r mod 64)]"
    by (simp add: utf8_EncodeRune_def)
  have "?r div 4096 = 2" using r by simp
  then have "char_of (0xE0 + ?r div 4096) \<noteq> ESC" by (intro char_of_not_ESC) simp_all
  moreover have "char_of (0x80 + ?r div 64 mod 64) \<noteq> ESC" "char_of (0x80 + ?r mod 64) \<noteq> ESC"
    by (rule char_of_not_ESC; simp)+
  ultimately show ?thesis unfolding e by auto
qed

lemma constants_no_ESC [simp]:
  "ESC \<notin> set scaleNote" "ESC \<notin> set axisSeparator" "ESC \<notin> set axisLabelTop"
  "ESC \<notin> set axisLabelMid" "ESC \<notin> set axisLabelBottom"
  by (simp_all add: ESC_def scaleNote_def axisSeparator_def axisLabelTop_def axisLabelMid_def
      axisLabelBottom_def)

lemma fmt_pad_no_ESC: "ESC \<notin> set s \<Longrightarrow> ESC \<notin> set (fmt_pad n s)"
  by (auto simp: fmt_pad_def ESC_def)

lemma strings_Join_no_ESC:
  "\<forall>p \<in> set parts. ESC \<notin> set p \<Longrightarrow> ESC \<notin> set sep \<Longrightarrow> ESC \<notin> set (strings_Join parts sep)"
  by (induction parts sep rule: strings_Join.induct) auto

lemma renderLegend_label_no_ESC:
  assumes "renderLegend_label False (i, s) = Some l" "ESC \<notin> set (Name s)"
  shows "ESC \<notin> set l"
proof -
  obtain style where st: "index lineStyles (int i smod int (length lineStyles)) = Some style"
    using index_lineStyles by blast
  then have "style \<in> set lineStyles" by (auto simp: index_def split: if_splits)
  then have "ESC \<notin> set (style_name style)" by (auto simp: lineStyles_def ESC_def)
  moreover have "l = utf8_EncodeRune (brailleFromMask 0x01) @ '' '' @ Name s @ '' ('' @ style_name style @ '')''"
    using assms(1) st by (simp add: renderLegend_label_def Let_def)
  ultimately show ?thesis using assms(2) utf8_braille_no_ESC [of 1] by (simp add: ESC_def)
qed

lemma plotSeries_cell_no_ESC:
  assumes "plotSeries_cell grids False x y = Some c"
  shows "ESC \<notin> set c"
  using assms utf8_braille_no_ESC
  by (auto simp: plotSeries_cell_def split: prod.splits)


lemma snd_in_enumerate: "p \<in> set (enumerate n xs) \<Longrightarrow> snd p \<in> set xs"
  by (metis enumerate_eq_zip in_set_zipE prod.collapse)

lemma plotSeries_lines_no_ESC:
  assumes lines: "plotSeries_lines e False title series0 width0 height0 = Some ls"
    and title: "ESC \<notin> set title"
    and names: "\<forall>s \<in> set series0. ESC \<notin> set (Name s)"
  shows "\<forall>l \<in> set ls. ESC \<notin> set l"
proof -
  let ?series = "filterSeries series0" and ?H = "plotSeries_height height0"
    and ?W = "plotSeries_width e width0"
  let ?scaled = "map (\<lambda>s. \<lparr>Name = Name s, Values = the (resampleSeries (Values s) ?W)\<rparr>) ?series"
  let ?minMax = "plotSeries_minMax ?scaled"
  let ?range = "\<lambda>is. Name (snd is) @ '': min='' @ fmt_f2 (min_r (?minMax ! fst is))
                       @ '' max='' @ fmt_f2 (max_r (?minMax ! fst is))"
  obtain grids labels rows parts where
    labels: "labels = map (\<lambda>y. if int y = ?H - 1 \<and> 1 < ?H then axisLabelBottom
                      else if int y = ?H div 2 \<and> 2 < ?H then axisLabelMid
                      else if y = 0 then axisLabelTop else [])
             [0..<nat ?H]"
    and nrows: "length rows = nat ?H"
    and rows: "\<forall>y < nat ?H. \<exists>cs. length cs = nat ?W
        \<and> (\<forall>x < nat ?W. plotSeries_cell grids False (int x) (int y) = Some (cs ! x))
        \<and> rows ! y = fmt_pad 4 (labels ! y) @ axisSeparator @ concat cs"
    and nparts: "length parts = length ?scaled"
    and parts: "\<forall>i < length ?scaled. renderLegend_label False (i, ?scaled ! i) = Some (parts ! i)"
    and ls: "plotSeries_lines e False title series0 width0 height0
       = Some ((if title \<noteq> [] then [title] else []) @ [scaleNote]
           @ map ?range (enumerate 0 ?scaled)
           @ rows @ [''Legend: '' @ strings_Join parts ''  '', []])"
    by (rule plotSeries_lines_struct [where e = e and ?width0.0 = width0 and ?series0.0 = series0
          and ?height0.0 = height0 and useColor = False and title = title])
  have nm: "ESC \<notin> set (Name s)" if "s \<in> set ?scaled" for s
    using that names by (auto simp: filterSeries_eq)
  have r1: "ESC \<notin> set (?range p)" if "p \<in> set (enumerate 0 ?scaled)" for p
  proof -
    have "snd p \<in> set ?scaled" using that by (rule snd_in_enumerate)
    then show ?thesis using nm fmt_f2_no_ESC by (simp add: ESC_def)
  qed
  have r2: "ESC \<notin> set row" if "row \<in> set rows" for row
  proof -
    from that obtain y where y: "y < nat ?H" "row = rows ! y"
      using nrows by (auto simp: in_set_conv_nth)
    with rows obtain cs where cs: "length cs = nat ?W"
      "\<forall>x < nat ?W. plotSeries_cell grids False (int x) (int y) = Some (cs ! x)"
      "row = fmt_pad 4 (labels ! y) @ axisSeparator @ concat cs"
      by blast
    have "ESC \<notin> set (labels ! y)" using y(1) by (simp add: labels)
    then have a: "ESC \<notin> set (fmt_pad 4 (labels ! y))" by (rule fmt_pad_no_ESC)
    have "ESC \<notin> set c" if "c \<in> set cs" for c
      using that cs(1,2) plotSeries_cell_no_ESC by (auto simp: in_set_conv_nth)
    then have "ESC \<notin> set (concat cs)" by auto
    then show ?thesis using a by (simp add: cs(3))
  qed
  have "ESC \<notin> set p" if "p \<in> set parts" for p
  proof -
    from that obtain i where i: "i < length ?scaled" "p = parts ! i"
      using nparts by (auto simp: in_set_conv_nth)
    then have "renderLegend_label False (i, ?scaled ! i) = Some p" using parts by simp
    moreover have "ESC \<notin> set (Name (?scaled ! i))" using i(1) nm nth_mem by blast
    ultimately show ?thesis by (rule renderLegend_label_no_ESC)
  qed
  then have r3: "ESC \<notin> set (''Legend: '' @ strings_Join parts ''  '')"
    using strings_Join_no_ESC [of parts "''  ''"] by (simp add: ESC_def)
  have "ls = (if title \<noteq> [] then [title] else []) @ [scaleNote]
           @ map ?range (enumerate 0 ?scaled)
           @ rows @ [''Legend: '' @ strings_Join parts ''  '', []]"
    using lines ls by simp
  then show ?thesis using title r1 r2 r3 by auto
qed

lemma shouldUseColor_False:
  assumes "NO_COLOR e \<noteq> [] \<or> (\<not> forceColor \<and> \<not> (is_os_File w \<and> is_Terminal w))"
  shows "shouldUseColor e w forceColor = False"
  using assms by (auto simp: shouldUseColor_def)

text \<open>
  Claim C3, as amended.  Let the title and the names of the series contain no ESC byte
  (\<open>0x1b\<close>).  If \<open>NO_COLOR\<close> is set to a non-empty value (also when the caller forces colour
  on), or if the caller does not force colour on and the sink is not an \<open>*os.File\<close> on a
  terminal, then \<open>plotSeries\<close> returns and the bytes it has appended to the sink contain no
  ESC byte, whether or not a write failed on the way.
\<close>

theorem plotSeries_color_suppressed:
  assumes "NO_COLOR e \<noteq> [] \<or> (\<not> forceColor \<and> \<not> (is_os_File w \<and> is_Terminal w))"
    and "ESC \<notin> set title"
    and "\<forall>s \<in> set series. ESC \<notin> set (Name s)"
  shows "\<exists>w' err out. plotSeries e w title series width height forceColor = Some (w', err)
           \<and> written w' = written w @ out \<and> ESC \<notin> set out"
proof (cases "filterSeries series = []")
  case True
  then have "plotSeries e w title series width height forceColor = Some (w, None)"
    by (rule plotSeries_empty)
  then show ?thesis by (intro exI [of _ w] exI [of _ None] exI [of _ "[]"]) simp
next
  case False
  have c: "shouldUseColor e w forceColor = False" using assms(1) by (rule shouldUseColor_False)
  from plotSeries_eq_writeLines [OF False, of e w forceColor title width height]
  obtain ls where ls: "plotSeries_lines e False title series width height = Some ls"
    and run: "plotSeries e w title series width height forceColor = Some (writeLines w ls)"
    unfolding c by blast
  have clean: "\<forall>l \<in> set ls. ESC \<notin> set l"
    using plotSeries_lines_no_ESC [OF ls assms(2,3)] .
  obtain out where out: "written (fst (writeLines w ls)) = written w @ out"
    "set out \<subseteq> (\<Union>l \<in> set ls. set l) \<union> {CHR 0x0A}"
    using writeLines_written [of w ls] by (elim exE conjE)
  have "ESC \<notin> set out" using out(2) clean by (auto simp: ESC_def)
  then show ?thesis
    unfolding run using out(1)
    by (intro exI [of _ "fst (writeLines w ls)"] exI [of _ "snd (writeLines w ls)"] exI [of _ out]) simp
qed


theorem plotSeries_color_suppressed_witness:
  "NO_COLOR \<lparr>NO_COLOR = ''1'', stdout_width = None\<rparr> \<noteq> []
   \<and> (\<exists>w' err out.
         plotSeries \<lparr>NO_COLOR = ''1'', stdout_width = None\<rparr>
           \<lparr>is_os_File = True, is_Terminal = True, written = [], calls = 0, fails = (\<lambda>k. False)\<rparr>
           ''T'' [\<lparr>Name = ''A'', Values = [1]\<rparr>] 10 1 True = Some (w', err)
         \<and> written w'
            = written \<lparr>is_os_File = True, is_Terminal = True, written = [], calls = 0, fails = (\<lambda>k. False)\<rparr> @ out
         \<and> ESC \<notin> set out)"
proof -
  have h1: "NO_COLOR \<lparr>NO_COLOR = ''1'', stdout_width = None\<rparr> \<noteq> []
      \<or> (\<not> True \<and> \<not> (is_os_File \<lparr>is_os_File = True, is_Terminal = True, written = [], calls = 0, fails = (\<lambda>k. False)\<rparr>
            \<and> is_Terminal \<lparr>is_os_File = True, is_Terminal = True, written = [], calls = 0, fails = (\<lambda>k. False)\<rparr>))"
    by simp
  have h2: "ESC \<notin> set ''T''" by (simp add: ESC_def)
  have h3: "\<forall>s \<in> set [\<lparr>Name = ''A'', Values = [1]\<rparr>]. ESC \<notin> set (Name s)" by (simp add: ESC_def)
  have h0: "NO_COLOR \<lparr>NO_COLOR = ''1'', stdout_width = None\<rparr> \<noteq> []" by simp
  from h0 plotSeries_color_suppressed [OF h1 h2 h3, of 10 1] show ?thesis by (intro conjI)
qed

text \<open>
  The claim as it was stated fails in two ways.  The title (and the names) are written as
  they are: with \<open>NO_COLOR\<close> set and colour forced on, a title with an ESC byte puts that
  byte in the output.  And \<open>forceColor = false\<close> is not a forced-off mode but detection:
  with \<open>NO_COLOR\<close> unset and a terminal as the sink, the output is coloured.
\<close>

theorem plotSeries_color_counterexample:
  "map_option (\<lambda>r. (ESC \<in> set (written (fst r)), snd r))
     (plotSeries \<lparr>NO_COLOR = ''1'', stdout_width = None\<rparr>
        \<lparr>is_os_File = False, is_Terminal = False, written = [], calls = 0, fails = (\<lambda>k. False)\<rparr>
        (ESC # ''[31mhi'') [\<lparr>Name = ''A'', Values = [1]\<rparr>] 10 1 True)
     = Some (True, None)
   \<and> map_option (\<lambda>r. (ESC \<in> set (written (fst r)), snd r))
     (plotSeries \<lparr>NO_COLOR = [], stdout_width = None\<rparr>
        \<lparr>is_os_File = True, is_Terminal = True, written = [], calls = 0, fails = (\<lambda>k. False)\<rparr>
        [] [\<lparr>Name = ''A'', Values = [1]\<rparr>] 10 1 False)
     = Some (True, None)"
  by code_simp

subsection \<open>The shape of the grids\<close>

lemma grid_shape:
  assumes "map (map length) grids = replicate n (replicate h w)" "g \<in> set grids"
  shows "length g = h \<and> (\<forall>row \<in> set g. length row = w)"
proof -
  have "map length g \<in> set (map (map length) grids)" using assms(2) by simp
  then have "map length g = replicate h w" unfolding assms(1) by simp
  then show ?thesis
    by (metis in_set_conv_nth length_map length_replicate nth_map nth_replicate)
qed

subsection \<open>C6: the end-to-end example\<close>

lemma plotSeries_lines_env:
  "0 < width0 \<Longrightarrow>
     plotSeries_lines e useColor title series0 width0 height0
       = plotSeries_lines e' useColor title series0 width0 height0"
  by (simp add: plotSeries_lines_def plotSeries_width_def)

lemma endToEnd_lines:
  "plotSeries_lines \<lparr>NO_COLOR = [], stdout_width = None\<rparr> False ''Test Plot''
     [\<lparr>Name = ''A'', Values = [1, 2, 3, 2, 1]\<rparr>, \<lparr>Name = ''B'', Values = [1, 1, 2, 3, 4]\<rparr>] 5 4
   = Some
      [''Test Plot'',
       ''Scaled per series; see min/max below.'',
       ''A: min=1.00 max=2.78'',
       ''B: min=1.00 max=4.00'',
       ''100%'' @ axisSeparator @ concat (map (\<lambda>m. utf8_EncodeRune (0x2800 + m)) [0, 0, 0, 160, 11, 49, 64, 0, 0, 1]),
       ''    '' @ axisSeparator @ concat (map (\<lambda>m. utf8_EncodeRune (0x2800 + m)) [0, 0, 160, 3, 0, 0, 113, 65, 0, 0]),
       '' 50%'' @ axisSeparator @ concat (map (\<lambda>m. utf8_EncodeRune (0x2800 + m)) [0, 112, 1, 0, 64, 0, 0, 49, 64, 0]),
       ''  0%'' @ axisSeparator @ concat (map (\<lambda>m. utf8_EncodeRune (0x2800 + m)) [240, 65, 0, 10, 0, 0, 0, 0, 24, 68]),
       ''Legend: '' @ utf8_EncodeRune 0x2801 @ '' A (solid)  '' @ utf8_EncodeRune 0x2801 @ '' B (dashed)'',
       '''']"
  by code_simp


text \<open>
  Claim C6.  With colour disabled, the call with title \<open>Test Plot\<close>, series
  \<open>A = [1, 2, 3, 2, 1]\<close> and \<open>B = [1, 1, 2, 3, 4]\<close>, width 5 and height 4 writes, in this
  order and one \<open>Write\<close> call each: the title line; the line of the scale note; the
  min/max line of \<open>A\<close> and that of \<open>B\<close>; four data rows, whose gutters are \<open>100%\<close>, blank,
  \<open>50%\<close> and \<open>0%\<close>, each followed by the separator and ten cells (the width 5 is raised
  to 10), given here by the dot mask of each cell; the legend line, which starts with
  \<open>Legend: \<close> and names \<open>A\<close> as solid and \<open>B\<close> as dashed; and an empty line.  On a sink
  whose writes succeed these ten lines are what the call appends, and it returns \<open>nil\<close>.
\<close>

theorem plotSeries_end_to_end:
  assumes "\<not> shouldUseColor e w forceColor"
  shows "let lines = [''Test Plot'',
          ''Scaled per series; see min/max below.'',
          ''A: min=1.00 max=2.78'',
          ''B: min=1.00 max=4.00'',
          ''100%'' @ axisSeparator @ concat (map (\<lambda>m. utf8_EncodeRune (0x2800 + m)) [0, 0, 0, 160, 11, 49, 64, 0, 0, 1]),
          ''    '' @ axisSeparator @ concat (map (\<lambda>m. utf8_EncodeRune (0x2800 + m)) [0, 0, 160, 3, 0, 0, 113, 65, 0, 0]),
          '' 50%'' @ axisSeparator @ concat (map (\<lambda>m. utf8_EncodeRune (0x2800 + m)) [0, 112, 1, 0, 64, 0, 0, 49, 64, 0]),
          ''  0%'' @ axisSeparator @ concat (map (\<lambda>m. utf8_EncodeRune (0x2800 + m)) [240, 65, 0, 10, 0, 0, 0, 0, 24, 68]),
          ''Legend: '' @ utf8_EncodeRune 0x2801 @ '' A (solid)  '' @ utf8_EncodeRune 0x2801 @ '' B (dashed)'',
          []]
     in plotSeries e w ''Test Plot'' [\<lparr>Name = ''A'', Values = [1, 2, 3, 2, 1]\<rparr>, \<lparr>Name = ''B'', Values = [1, 1, 2, 3, 4]\<rparr>] 5 4 forceColor = Some (writeLines w lines)
        \<and> ((\<forall>k. \<not> fails w k) \<longrightarrow>
             (\<exists>w'. plotSeries e w ''Test Plot'' [\<lparr>Name = ''A'', Values = [1, 2, 3, 2, 1]\<rparr>, \<lparr>Name = ''B'', Values = [1, 1, 2, 3, 4]\<rparr>] 5 4 forceColor = Some (w', None)
                   \<and> written w' = written w @ concat (map (\<lambda>l. l @ [CHR 0x0A]) lines)
                   \<and> calls w' = calls w + 10))"
proof -
  let ?S = "[\<lparr>Name = ''A'', Values = [1, 2, 3, 2, 1]\<rparr>, \<lparr>Name = ''B'', Values = [1, 1, 2, 3, 4]\<rparr>]"
  let ?lines = "[''Test Plot'',
          ''Scaled per series; see min/max below.'',
          ''A: min=1.00 max=2.78'',
          ''B: min=1.00 max=4.00'',
          ''100%'' @ axisSeparator @ concat (map (\<lambda>m. utf8_EncodeRune (0x2800 + m)) [0, 0, 0, 160, 11, 49, 64, 0, 0, 1]),
          ''    '' @ axisSeparator @ concat (map (\<lambda>m. utf8_EncodeRune (0x2800 + m)) [0, 0, 160, 3, 0, 0, 113, 65, 0, 0]),
          '' 50%'' @ axisSeparator @ concat (map (\<lambda>m. utf8_EncodeRune (0x2800 + m)) [0, 112, 1, 0, 64, 0, 0, 49, 64, 0]),
          ''  0%'' @ axisSeparator @ concat (map (\<lambda>m. utf8_EncodeRune (0x2800 + m)) [240, 65, 0, 10, 0, 0, 0, 0, 24, 68]),
          ''Legend: '' @ utf8_EncodeRune 0x2801 @ '' A (solid)  '' @ utf8_EncodeRune 0x2801 @ '' B (dashed)'',
          []]"
  have ne: "filterSeries ?S \<noteq> []" by (simp add: filterSeries_def)
  have "plotSeries_lines e False ''Test Plot'' ?S 5 4 = Some ?lines"
    using plotSeries_lines_env [of 5 e False "''Test Plot''" ?S 4 "\<lparr>NO_COLOR = [], stdout_width = None\<rparr>"]
    by (simp only: endToEnd_lines)
  with plotSeries_eq_writeLines [OF ne, of e w forceColor "''Test Plot''" 5 4] assms
  have run: "plotSeries e w ''Test Plot'' ?S 5 4 forceColor = Some (writeLines w ?lines)"
    by simp
  have ok: "\<exists>w'. plotSeries e w ''Test Plot'' ?S 5 4 forceColor = Some (w', None)
                   \<and> written w' = written w @ concat (map (\<lambda>l. l @ [CHR 0x0A]) ?lines)
                   \<and> calls w' = calls w + 10"
    if "\<forall>k. \<not> fails w k"
  proof -
    have "\<forall>k < length ?lines. \<not> fails w (calls w + k)" using that by simp
    from writeLines_ok [OF this] show ?thesis unfolding run by simp
  qed
  show ?thesis unfolding Let_def using run ok by blast
qed


theorem plotSeries_end_to_end_witness:
  "\<not> shouldUseColor \<lparr>NO_COLOR = [], stdout_width = None\<rparr> \<lparr>is_os_File = False, is_Terminal = False, written = [], calls = 0, fails = (\<lambda>k. False)\<rparr> False
   \<and> plotSeries \<lparr>NO_COLOR = [], stdout_width = None\<rparr> \<lparr>is_os_File = False, is_Terminal = False, written = [], calls = 0, fails = (\<lambda>k. False)\<rparr> ''Test Plot'' [\<lparr>Name = ''A'', Values = [1, 2, 3, 2, 1]\<rparr>, \<lparr>Name = ''B'', Values = [1, 1, 2, 3, 4]\<rparr>] 5 4 False
     = Some (writeLines \<lparr>is_os_File = False, is_Terminal = False, written = [], calls = 0, fails = (\<lambda>k. False)\<rparr>
         [''Test Plot'',
          ''Scaled per series; see min/max below.'',
          ''A: min=1.00 max=2.78'',
          ''B: min=1.00 max=4.00'',
          ''100%'' @ axisSeparator @ concat (map (\<lambda>m. utf8_EncodeRune (0x2800 + m)) [0, 0, 0, 160, 11, 49, 64, 0, 0, 1]),
          ''    '' @ axisSeparator @ concat (map (\<lambda>m. utf8_EncodeRune (0x2800 + m)) [0, 0, 160, 3, 0, 0, 113, 65, 0, 0]),
          '' 50%'' @ axisSeparator @ concat (map (\<lambda>m. utf8_EncodeRune (0x2800 + m)) [0, 112, 1, 0, 64, 0, 0, 49, 64, 0]),
          ''  0%'' @ axisSeparator @ concat (map (\<lambda>m. utf8_EncodeRune (0x2800 + m)) [240, 65, 0, 10, 0, 0, 0, 0, 24, 68]),
          ''Legend: '' @ utf8_EncodeRune 0x2801 @ '' A (solid)  '' @ utf8_EncodeRune 0x2801 @ '' B (dashed)'',
          []])"
proof -
  have h: "\<not> shouldUseColor \<lparr>NO_COLOR = [], stdout_width = None\<rparr> \<lparr>is_os_File = False, is_Terminal = False, written = [], calls = 0, fails = (\<lambda>k. False)\<rparr> False"
    by (simp add: shouldUseColor_def)
  from plotSeries_end_to_end [OF h] h show ?thesis
    unfolding Let_def by (intro conjI) (elim conjE, assumption)+
qed

subsection \<open>C8: the width of the canvas\<close>

lemma RuneCount_append:
  "utf8_RuneCountInString (a @ b) = utf8_RuneCountInString a + utf8_RuneCountInString b"
  by (simp add: utf8_RuneCountInString_def)

lemma RuneCount_concat:
  "utf8_RuneCountInString (concat cs) = (\<Sum>c\<leftarrow>cs. utf8_RuneCountInString c)"
  by (induction cs) (simp_all add: utf8_RuneCountInString_def)

lemma RuneCount_spaces: "utf8_RuneCountInString (replicate n (CHR 0x20)) = int n"
  by (induction n) (simp_all add: utf8_RuneCountInString_def)

lemma RuneCount_fmt_pad_label:
  assumes "l \<in> {axisLabelTop, axisLabelMid, axisLabelBottom, []}"
  shows "utf8_RuneCountInString (fmt_pad 4 l) = 4"
  using assms
  by (auto simp: fmt_pad_def utf8_RuneCountInString_def axisLabelTop_def axisLabelMid_def
      axisLabelBottom_def)

lemma continuation_byte:
  assumes "0 \<le> (k::int)" "k < 64"
  shows "of_char (char_of (0x80 + k) :: char) div (64 :: int) = 2"
proof -
  have m: "(0x80 + k) mod 256 = 0x80 + k" using assms by (intro mod_pos_pos_trivial) simp_all
  have "0x80 + k = 64 * 2 + k" by simp
  then have "(0x80 + k) div 64 = (64 * 2 + k) div 64" by (rule arg_cong)
  also have "\<dots> = 2 + k div 64" by (rule div_mult_self4) simp
  also have "k div 64 = 0" using assms by (rule div_pos_pos_trivial)
  finally have d: "(0x80 + k) div 64 = 2" by simp
  show ?thesis unfolding of_char_of m by (rule d)
qed

lemma filter_lead_byte:
  "f a \<noteq> (2::int) \<Longrightarrow> f b = 2 \<Longrightarrow> f c = 2
   \<Longrightarrow> int (length (filter (\<lambda>x. f x \<noteq> 2) [a, b, c])) = 1"
  by simp

lemma RuneCount_braille: "utf8_RuneCountInString (utf8_EncodeRune (brailleFromMask m)) = 1"
proof -
  let ?r = "brailleFromMask m"
  have "uint m < 2 ^ LENGTH(8)" by (rule unsigned_less)
  then have "uint m < 256" by simp
  then have r: "0x2800 \<le> ?r" "?r < 0x2900" by (simp_all add: brailleFromMask_def)
  then have e: "utf8_EncodeRune ?r
      = [char_of (0xE0 + ?r div 4096), char_of (0x80 + ?r div 64 mod 64), char_of (0x80 + ?r mod 64)]"
    by (simp add: utf8_EncodeRune_def)
  have d: "?r div 4096 = 2" using r by simp
  have a: "of_char (char_of (0xE0 + ?r div 4096) :: char) div (64 :: int) \<noteq> 2"
    unfolding d of_char_of by simp
  have b: "of_char (char_of (0x80 + ?r div 64 mod 64) :: char) div (64 :: int) = 2"
    by (rule continuation_byte) simp_all
  have c: "of_char (char_of (0x80 + ?r mod 64) :: char) div (64 :: int) = 2"
    by (rule continuation_byte) simp_all
  show ?thesis unfolding e utf8_RuneCountInString_def
    by (rule filter_lead_byte [where f = "\<lambda>c. of_char c div 64"]) (fact a b c)+
qed

lemma plotSeries_cell_char:
  assumes "plotSeries_cell grids useColor x y = Some c"
  shows "c = (if useColor \<and> 0 \<le> snd (composeCell grids x y)
              then code (colorPalette ! nat (snd (composeCell grids x y) smod int (length colorPalette)))
                   @ utf8_EncodeRune (brailleFromMask (fst (composeCell grids x y))) @ colorReset
              else utf8_EncodeRune (brailleFromMask (fst (composeCell grids x y))))"
  using assms
  by (auto simp: plotSeries_cell_def index_def split: prod.splits if_splits)

lemma brailleFromMask_range: "0x2800 \<le> brailleFromMask m \<and> brailleFromMask m \<le> 0x28FF"
proof -
  have "uint m < 2 ^ LENGTH(8)" by (rule unsigned_less)
  then have "uint m < 256" by simp
  then show ?thesis by (simp add: brailleFromMask_def)
qed

lemma RuneCount_plain_cells:
  assumes "\<forall>x < length cs. \<exists>m. cs ! x = utf8_EncodeRune (brailleFromMask m)"
  shows "utf8_RuneCountInString (concat cs) = int (length cs)"
proof -
  have "\<forall>c \<in> set cs. utf8_RuneCountInString c = 1"
    using assms RuneCount_braille by (metis in_set_conv_nth)
  then have "map utf8_RuneCountInString cs = replicate (length cs) 1"
    by (simp add: map_replicate_const [symmetric] cong: map_cong)
  then show ?thesis by (simp add: RuneCount_concat sum_list_replicate)
qed

text \<open>
  Claim C8.  The minimum plot width is 10.  The gutter and the separator take 9 runes, so
  the width derived from the terminal is the larger of 10 and the terminal width less 9.
  The width \<open>plotSeries\<close> works with is the larger of 10 and the resolved width: the width of
  the caller when it is positive, the width derived from the terminal otherwise; so a
  positive width below 10 is raised to 10, and a request for 5 gives 10.  When there is a
  series to plot, every resampled series has exactly that many values, every dot grid has
  \<open>height\<close> rows of that many cells, and the lines that \<open>plotSeries\<close> writes hold, after the
  title, the scale note and one min/max line per series, \<open>height\<close> data rows.  Each data row
  is a gutter of 4 runes, the separator and exactly that many cells; the cell at \<open>(x, y)\<close>
  is the one Braille character (a single rune between U+2800 and U+28FF) of the mask
  composed at \<open>(x, y)\<close>, between a colour code and the reset code when colour is on and
  the cell has an owner.  Without colour a data row therefore counts 9 runes more than
  the width.
\<close>

theorem plotSeries_width_invariant:
  "minPlotWidth = 10
   \<and> utf8_RuneCountInString axisLabelTop + utf8_RuneCountInString axisSeparator = 9
   \<and> autoPlotWidth e = max minPlotWidth (terminalWidth e - 9)
   \<and> minPlotWidth \<le> autoPlotWidth e
   \<and> plotSeries_width e width = max minPlotWidth (if width \<le> 0 then autoPlotWidth e else width)
   \<and> (0 < width \<and> width < minPlotWidth \<longrightarrow> plotSeries_width e width = minPlotWidth)
   \<and> plotSeries_width e 5 = 10
   \<and> (filterSeries series \<noteq> [] \<longrightarrow>
        (\<exists>scaled grids ls.
           plotSeries_scaled (filterSeries series) (plotSeries_width e width) = Some scaled
           \<and> length scaled = length (filterSeries series)
           \<and> (\<forall>s \<in> set scaled. int (length (Values s)) = plotSeries_width e width)
           \<and> plotSeries_seriesCells scaled (plotSeries_minMax scaled) (plotSeries_height height)
                (plotSeries_width e width) = Some grids
           \<and> length grids = length scaled
           \<and> (\<forall>g \<in> set grids. int (length g) = plotSeries_height height
                  \<and> (\<forall>row \<in> set g. int (length row) = plotSeries_width e width))
           \<and> plotSeries_lines e (shouldUseColor e w forceColor) title series width height = Some ls
           \<and> plotSeries e w title series width height forceColor = Some (writeLines w ls)
           \<and> int (length ls)
               = int ((if title = [] then 1 else 2) + length (filterSeries series))
                 + plotSeries_height height + 2
           \<and> (\<forall>y < nat (plotSeries_height height). \<exists>gutter cs.
                  ls ! ((if title = [] then 1 else 2) + length (filterSeries series) + y)
                    = gutter @ axisSeparator @ concat cs
                  \<and> utf8_RuneCountInString gutter = 4
                  \<and> int (length cs) = plotSeries_width e width
                  \<and> (\<forall>x < length cs.
                        cs ! x
                          = (if shouldUseColor e w forceColor
                                \<and> 0 \<le> snd (composeCell grids (int x) (int y))
                             then code (colorPalette
                                     ! nat (snd (composeCell grids (int x) (int y))
                                            smod int (length colorPalette)))
                                  @ utf8_EncodeRune
                                      (brailleFromMask (fst (composeCell grids (int x) (int y))))
                                  @ colorReset
                             else utf8_EncodeRune
                                    (brailleFromMask (fst (composeCell grids (int x) (int y)))))
                        \<and> utf8_RuneCountInString
                            (utf8_EncodeRune
                               (brailleFromMask (fst (composeCell grids (int x) (int y))))) = 1
                        \<and> 0x2800 \<le> brailleFromMask (fst (composeCell grids (int x) (int y)))
                        \<and> brailleFromMask (fst (composeCell grids (int x) (int y))) \<le> 0x28FF)
                  \<and> (\<not> shouldUseColor e w forceColor \<longrightarrow>
                        utf8_RuneCountInString
                          (ls ! ((if title = [] then 1 else 2) + length (filterSeries series) + y))
                        = 9 + plotSeries_width e width))))"
proof (intro conjI impI)
  show "minPlotWidth = 10" by (simp add: minPlotWidth_def)
  show ax: "utf8_RuneCountInString axisLabelTop + utf8_RuneCountInString axisSeparator = 9"
    by (simp add: utf8_RuneCountInString_axis)
  show "autoPlotWidth e = max minPlotWidth (terminalWidth e - 9)"
  proof -
    have "0 < terminalWidth e"
      by (simp add: terminalWidth_def terminalWidthBackup_def split: option.splits)
    then show ?thesis
      unfolding autoPlotWidth_def PlotWidthFor_def ax
      by (simp add: Let_def minPlotWidth_def)
  qed
  show "minPlotWidth \<le> autoPlotWidth e" by (simp add: autoPlotWidth_def PlotWidthFor_ge)
  show "plotSeries_width e width = max minPlotWidth (if width \<le> 0 then autoPlotWidth e else width)"
    by (simp add: plotSeries_width_eq minPlotWidth_def)
  show "plotSeries_width e width = minPlotWidth" if "0 < width \<and> width < minPlotWidth"
    using that by (simp add: plotSeries_width_eq minPlotWidth_def)
  show "plotSeries_width e 5 = 10" by (simp add: plotSeries_width_eq)
next
  assume ne: "filterSeries series \<noteq> []"
  let ?useColor = "shouldUseColor e w forceColor"
  let ?series = "filterSeries series" and ?H = "plotSeries_height height"
    and ?W = "plotSeries_width e width"
  let ?scaled = "map (\<lambda>s. \<lparr>Name = Name s, Values = the (resampleSeries (Values s) ?W)\<rparr>) ?series"
  let ?minMax = "plotSeries_minMax ?scaled"
  let ?range = "\<lambda>is. Name (snd is) @ '': min='' @ fmt_f2 (min_r (?minMax ! fst is))
                       @ '' max='' @ fmt_f2 (max_r (?minMax ! fst is))"
  let ?off = "(if title = [] then 1 else 2) + length ?series"
  have W: "0 \<le> ?W" using plotSeries_width_ge [of e width] by (simp add: minPlotWidth_def)
  have H: "0 \<le> ?H" using plotSeries_height_pos [of height] by simp
  obtain grids labels rows parts where
    sc: "plotSeries_scaled ?series ?W = Some ?scaled"
    and len: "\<forall>s \<in> set ?scaled. int (length (Values s)) = ?W"
    and g: "plotSeries_seriesCells ?scaled ?minMax ?H ?W = Some grids"
    and gs: "map (map length) grids = replicate (length ?scaled) (replicate (nat ?H) (nat ?W))"
    and labels: "labels = map (\<lambda>y. if int y = ?H - 1 \<and> 1 < ?H then axisLabelBottom
                      else if int y = ?H div 2 \<and> 2 < ?H then axisLabelMid
                      else if y = 0 then axisLabelTop else [])
             [0..<nat ?H]"
    and nrows: "length rows = nat ?H"
    and rows: "\<forall>y < nat ?H. \<exists>cs. length cs = nat ?W
        \<and> (\<forall>x < nat ?W. plotSeries_cell grids ?useColor (int x) (int y) = Some (cs ! x))
        \<and> rows ! y = fmt_pad 4 (labels ! y) @ axisSeparator @ concat cs"
    and lines: "plotSeries_lines e ?useColor title series width height
       = Some ((if title \<noteq> [] then [title] else []) @ [scaleNote]
           @ map ?range (enumerate 0 ?scaled)
           @ rows @ [''Legend: '' @ strings_Join parts ''  '', []])"
    by (rule plotSeries_lines_struct [where e = e and ?width0.0 = width and ?series0.0 = series
          and ?height0.0 = height and useColor = ?useColor and title = title])
  let ?head = "(if title \<noteq> [] then [title] else []) @ [scaleNote] @ map ?range (enumerate 0 ?scaled)"
  let ?tail = "[''Legend: '' @ strings_Join parts ''  '', []]"
  let ?ls = "?head @ rows @ ?tail"
  have lines': "plotSeries_lines e ?useColor title series width height = Some ?ls"
    using lines by simp
  have run: "plotSeries e w title series width height forceColor = Some (writeLines w ?ls)"
    using plotSeries_eq_writeLines [OF ne, of e w forceColor title width height] lines by simp
  have shape: "\<forall>g \<in> set grids. int (length g) = ?H \<and> (\<forall>row \<in> set g. int (length row) = ?W)"
    using grid_shape [OF gs] W H by fastforce
  have ng: "length grids = length ?scaled"
    using arg_cong [OF gs, of length] by simp
  have lhead: "length ?head = ?off" by simp
  have llen: "int (length ?ls) = int ?off + ?H + 2"
    using nrows H by simp
  have nth: "?ls ! (?off + y) = rows ! y" if "y < nat ?H" for y
  proof -
    have "?ls ! (length ?head + y) = (rows @ ?tail) ! y" by (rule nth_append_length_plus)
    also have "\<dots> = rows ! y" using that nrows by (simp add: nth_append)
    finally show ?thesis unfolding lhead .
  qed
  have rows': "\<exists>gutter cs.
        ?ls ! (?off + y) = gutter @ axisSeparator @ concat cs
        \<and> utf8_RuneCountInString gutter = 4
        \<and> int (length cs) = ?W
        \<and> (\<forall>x < length cs.
              cs ! x
                = (if ?useColor \<and> 0 \<le> snd (composeCell grids (int x) (int y))
                   then code (colorPalette
                           ! nat (snd (composeCell grids (int x) (int y))
                                  smod int (length colorPalette)))
                        @ utf8_EncodeRune (brailleFromMask (fst (composeCell grids (int x) (int y))))
                        @ colorReset
                   else utf8_EncodeRune (brailleFromMask (fst (composeCell grids (int x) (int y)))))
              \<and> utf8_RuneCountInString
                  (utf8_EncodeRune (brailleFromMask (fst (composeCell grids (int x) (int y))))) = 1
              \<and> 0x2800 \<le> brailleFromMask (fst (composeCell grids (int x) (int y)))
              \<and> brailleFromMask (fst (composeCell grids (int x) (int y))) \<le> 0x28FF)
        \<and> (\<not> ?useColor \<longrightarrow> utf8_RuneCountInString (?ls ! (?off + y)) = 9 + ?W)"
    if y: "y < nat ?H" for y
  proof -
    from rows y obtain cs where cs: "length cs = nat ?W"
      "\<forall>x < nat ?W. plotSeries_cell grids ?useColor (int x) (int y) = Some (cs ! x)"
      "rows ! y = fmt_pad 4 (labels ! y) @ axisSeparator @ concat cs"
      by blast
    have "labels ! y \<in> {axisLabelTop, axisLabelMid, axisLabelBottom, []}"
      using y unfolding labels by simp
    then have gut: "utf8_RuneCountInString (fmt_pad 4 (labels ! y)) = 4"
      by (rule RuneCount_fmt_pad_label)
    have cell: "cs ! x
                = (if ?useColor \<and> 0 \<le> snd (composeCell grids (int x) (int y))
                   then code (colorPalette
                           ! nat (snd (composeCell grids (int x) (int y))
                                  smod int (length colorPalette)))
                        @ utf8_EncodeRune (brailleFromMask (fst (composeCell grids (int x) (int y))))
                        @ colorReset
                   else utf8_EncodeRune (brailleFromMask (fst (composeCell grids (int x) (int y)))))"
      if "x < length cs" for x
      using cs(1,2) that by (intro plotSeries_cell_char) simp
    have plain: "utf8_RuneCountInString (rows ! y) = 9 + ?W" if nc: "\<not> ?useColor"
    proof -
      have "\<forall>x < length cs. \<exists>m. cs ! x = utf8_EncodeRune (brailleFromMask m)"
        using cell nc by auto
      then have "utf8_RuneCountInString (concat cs) = int (length cs)"
        by (rule RuneCount_plain_cells)
      then show ?thesis
        unfolding cs(3) RuneCount_append gut utf8_RuneCountInString_axis(2)
        using cs(1) W by simp
    qed
    show ?thesis
      unfolding nth [OF y]
      apply (rule exI [of _ "fmt_pad 4 (labels ! y)"], rule exI [of _ cs])
      using cs(1,3) gut cell plain W RuneCount_braille brailleFromMask_range by simp
  qed
  show "\<exists>scaled grids ls.
           plotSeries_scaled ?series ?W = Some scaled
           \<and> length scaled = length ?series
           \<and> (\<forall>s \<in> set scaled. int (length (Values s)) = ?W)
           \<and> plotSeries_seriesCells scaled (plotSeries_minMax scaled) ?H ?W = Some grids
           \<and> length grids = length scaled
           \<and> (\<forall>g \<in> set grids. int (length g) = ?H \<and> (\<forall>row \<in> set g. int (length row) = ?W))
           \<and> plotSeries_lines e ?useColor title series width height = Some ls
           \<and> plotSeries e w title series width height forceColor = Some (writeLines w ls)
           \<and> int (length ls) = int ?off + ?H + 2
           \<and> (\<forall>y < nat ?H. \<exists>gutter cs.
                  ls ! (?off + y) = gutter @ axisSeparator @ concat cs
                  \<and> utf8_RuneCountInString gutter = 4
                  \<and> int (length cs) = ?W
                  \<and> (\<forall>x < length cs.
                        cs ! x
                          = (if ?useColor \<and> 0 \<le> snd (composeCell grids (int x) (int y))
                             then code (colorPalette
                                     ! nat (snd (composeCell grids (int x) (int y))
                                            smod int (length colorPalette)))
                                  @ utf8_EncodeRune
                                      (brailleFromMask (fst (composeCell grids (int x) (int y))))
                                  @ colorReset
                             else utf8_EncodeRune
                                    (brailleFromMask (fst (composeCell grids (int x) (int y)))))
                        \<and> utf8_RuneCountInString
                            (utf8_EncodeRune
                               (brailleFromMask (fst (composeCell grids (int x) (int y))))) = 1
                        \<and> 0x2800 \<le> brailleFromMask (fst (composeCell grids (int x) (int y)))
                        \<and> brailleFromMask (fst (composeCell grids (int x) (int y))) \<le> 0x28FF)
                  \<and> (\<not> ?useColor \<longrightarrow>
                        utf8_RuneCountInString (ls ! (?off + y)) = 9 + ?W))"
    apply (rule exI [of _ ?scaled], rule exI [of _ grids], rule exI [of _ ?ls])
    apply (intro conjI allI impI)
    subgoal by (rule sc)
    subgoal by simp
    subgoal by (rule len)
    subgoal by (rule g)
    subgoal by (rule ng)
    subgoal by (rule shape)
    subgoal by (rule lines')
    subgoal by (rule run)
    subgoal by (rule llen)
    subgoal for y by (rule rows')
    done
qed

theorem plotSeries_width_invariant_witness:
  "plotSeries_width \<lparr>NO_COLOR = [], stdout_width = None\<rparr> 5 = 10
   \<and> filterSeries [\<lparr>Name = ''A'', Values = [1, 2, 3, 2, 1]\<rparr>, \<lparr>Name = ''B'', Values = [1, 1, 2, 3, 4]\<rparr>] \<noteq> []
   \<and> \<not> shouldUseColor \<lparr>NO_COLOR = [], stdout_width = None\<rparr> \<lparr>is_os_File = False, is_Terminal = False, written = [], calls = 0, fails = (\<lambda>k. False)\<rparr> False
   \<and> plotSeries_lines \<lparr>NO_COLOR = [], stdout_width = None\<rparr> False ''Test Plot'' [\<lparr>Name = ''A'', Values = [1, 2, 3, 2, 1]\<rparr>, \<lparr>Name = ''B'', Values = [1, 1, 2, 3, 4]\<rparr>] 5 4 = Some [''Test Plot'',
       ''Scaled per series; see min/max below.'',
       ''A: min=1.00 max=2.78'',
       ''B: min=1.00 max=4.00'',
       ''100%'' @ axisSeparator @ concat (map (\<lambda>m. utf8_EncodeRune (0x2800 + m)) [0, 0, 0, 160, 11, 49, 64, 0, 0, 1]),
       ''    '' @ axisSeparator @ concat (map (\<lambda>m. utf8_EncodeRune (0x2800 + m)) [0, 0, 160, 3, 0, 0, 113, 65, 0, 0]),
       '' 50%'' @ axisSeparator @ concat (map (\<lambda>m. utf8_EncodeRune (0x2800 + m)) [0, 112, 1, 0, 64, 0, 0, 49, 64, 0]),
       ''  0%'' @ axisSeparator @ concat (map (\<lambda>m. utf8_EncodeRune (0x2800 + m)) [240, 65, 0, 10, 0, 0, 0, 0, 24, 68]),
       ''Legend: '' @ utf8_EncodeRune 0x2801 @ '' A (solid)  '' @ utf8_EncodeRune 0x2801 @ '' B (dashed)'',
       []]
   \<and> [''Test Plot'',
       ''Scaled per series; see min/max below.'',
       ''A: min=1.00 max=2.78'',
       ''B: min=1.00 max=4.00'',
       ''100%'' @ axisSeparator @ concat (map (\<lambda>m. utf8_EncodeRune (0x2800 + m)) [0, 0, 0, 160, 11, 49, 64, 0, 0, 1]),
       ''    '' @ axisSeparator @ concat (map (\<lambda>m. utf8_EncodeRune (0x2800 + m)) [0, 0, 160, 3, 0, 0, 113, 65, 0, 0]),
       '' 50%'' @ axisSeparator @ concat (map (\<lambda>m. utf8_EncodeRune (0x2800 + m)) [0, 112, 1, 0, 64, 0, 0, 49, 64, 0]),
       ''  0%'' @ axisSeparator @ concat (map (\<lambda>m. utf8_EncodeRune (0x2800 + m)) [240, 65, 0, 10, 0, 0, 0, 0, 24, 68]),
       ''Legend: '' @ utf8_EncodeRune 0x2801 @ '' A (solid)  '' @ utf8_EncodeRune 0x2801 @ '' B (dashed)'',
       []] ! 4 = ''100%'' @ axisSeparator @ concat (map (\<lambda>m. utf8_EncodeRune (0x2800 + m)) [0, 0, 0, 160, 11, 49, 64, 0, 0, 1])
   \<and> (\<exists>gutter cs.
         ''100%'' @ axisSeparator @ concat (map (\<lambda>m. utf8_EncodeRune (0x2800 + m)) [0, 0, 0, 160, 11, 49, 64, 0, 0, 1]) = gutter @ axisSeparator @ concat cs
         \<and> utf8_RuneCountInString gutter = 4
         \<and> int (length cs) = 10)
   \<and> utf8_RuneCountInString (''100%'' @ axisSeparator @ concat (map (\<lambda>m. utf8_EncodeRune (0x2800 + m)) [0, 0, 0, 160, 11, 49, 64, 0, 0, 1])) = 19"
proof -
  note t = plotSeries_width_invariant [where e = "\<lparr>NO_COLOR = [], stdout_width = None\<rparr>" and width = 5 and series = "[\<lparr>Name = ''A'', Values = [1, 2, 3, 2, 1]\<rparr>, \<lparr>Name = ''B'', Values = [1, 1, 2, 3, 4]\<rparr>]"
      and height = 4 and w = "\<lparr>is_os_File = False, is_Terminal = False, written = [], calls = 0, fails = (\<lambda>k. False)\<rparr>" and forceColor = False and title = "''Test Plot''"]
  have ne: "filterSeries [\<lparr>Name = ''A'', Values = [1, 2, 3, 2, 1]\<rparr>, \<lparr>Name = ''B'', Values = [1, 1, 2, 3, 4]\<rparr>] \<noteq> []" by (simp add: filterSeries_def)
  have nc: "\<not> shouldUseColor \<lparr>NO_COLOR = [], stdout_width = None\<rparr> \<lparr>is_os_File = False, is_Terminal = False, written = [], calls = 0, fails = (\<lambda>k. False)\<rparr> False" by (simp add: shouldUseColor_def)
  have sc: "shouldUseColor \<lparr>NO_COLOR = [], stdout_width = None\<rparr> \<lparr>is_os_File = False, is_Terminal = False, written = [], calls = 0, fails = (\<lambda>k. False)\<rparr> False = False" by (simp add: shouldUseColor_def)
  have a: "plotSeries_width \<lparr>NO_COLOR = [], stdout_width = None\<rparr> 5 = 10"
    by (rule t [THEN conjunct2, THEN conjunct2, THEN conjunct2, THEN conjunct2, THEN conjunct2,
          THEN conjunct2, THEN conjunct1])
  have y: "0 < nat (plotSeries_height 4)" by (simp add: plotSeries_height_def)
  have off: "(if ''Test Plot'' = [] then 1 else 2) + length (filterSeries [\<lparr>Name = ''A'', Values = [1, 2, 3, 2, 1]\<rparr>, \<lparr>Name = ''B'', Values = [1, 1, 2, 3, 4]\<rparr>]) + 0 = 4"
    by (simp add: filterSeries_def)
  have row: "[''Test Plot'',
       ''Scaled per series; see min/max below.'',
       ''A: min=1.00 max=2.78'',
       ''B: min=1.00 max=4.00'',
       ''100%'' @ axisSeparator @ concat (map (\<lambda>m. utf8_EncodeRune (0x2800 + m)) [0, 0, 0, 160, 11, 49, 64, 0, 0, 1]),
       ''    '' @ axisSeparator @ concat (map (\<lambda>m. utf8_EncodeRune (0x2800 + m)) [0, 0, 160, 3, 0, 0, 113, 65, 0, 0]),
       '' 50%'' @ axisSeparator @ concat (map (\<lambda>m. utf8_EncodeRune (0x2800 + m)) [0, 112, 1, 0, 64, 0, 0, 49, 64, 0]),
       ''  0%'' @ axisSeparator @ concat (map (\<lambda>m. utf8_EncodeRune (0x2800 + m)) [240, 65, 0, 10, 0, 0, 0, 0, 24, 68]),
       ''Legend: '' @ utf8_EncodeRune 0x2801 @ '' A (solid)  '' @ utf8_EncodeRune 0x2801 @ '' B (dashed)'',
       []] ! 4 = ''100%'' @ axisSeparator @ concat (map (\<lambda>m. utf8_EncodeRune (0x2800 + m)) [0, 0, 0, 160, 11, 49, 64, 0, 0, 1])" by simp
  have "(\<exists>gutter cs.
         ''100%'' @ axisSeparator @ concat (map (\<lambda>m. utf8_EncodeRune (0x2800 + m)) [0, 0, 0, 160, 11, 49, 64, 0, 0, 1]) = gutter @ axisSeparator @ concat cs
         \<and> utf8_RuneCountInString gutter = 4
         \<and> int (length cs) = 10)
   \<and> utf8_RuneCountInString (''100%'' @ axisSeparator @ concat (map (\<lambda>m. utf8_EncodeRune (0x2800 + m)) [0, 0, 0, 160, 11, 49, 64, 0, 0, 1])) = 19"
    using t [THEN conjunct2, THEN conjunct2, THEN conjunct2, THEN conjunct2, THEN conjunct2,
          THEN conjunct2, THEN conjunct2, THEN mp, OF ne]
    apply (elim exE conjE)
    subgoal premises p for scaled grids ls
    proof -
      have "Some [''Test Plot'',
       ''Scaled per series; see min/max below.'',
       ''A: min=1.00 max=2.78'',
       ''B: min=1.00 max=4.00'',
       ''100%'' @ axisSeparator @ concat (map (\<lambda>m. utf8_EncodeRune (0x2800 + m)) [0, 0, 0, 160, 11, 49, 64, 0, 0, 1]),
       ''    '' @ axisSeparator @ concat (map (\<lambda>m. utf8_EncodeRune (0x2800 + m)) [0, 0, 160, 3, 0, 0, 113, 65, 0, 0]),
       '' 50%'' @ axisSeparator @ concat (map (\<lambda>m. utf8_EncodeRune (0x2800 + m)) [0, 112, 1, 0, 64, 0, 0, 49, 64, 0]),
       ''  0%'' @ axisSeparator @ concat (map (\<lambda>m. utf8_EncodeRune (0x2800 + m)) [240, 65, 0, 10, 0, 0, 0, 0, 24, 68]),
       ''Legend: '' @ utf8_EncodeRune 0x2801 @ '' A (solid)  '' @ utf8_EncodeRune 0x2801 @ '' B (dashed)'',
       []] = Some ls"
        using p(7) unfolding sc endToEnd_lines .
      then have ls: "ls = [''Test Plot'',
       ''Scaled per series; see min/max below.'',
       ''A: min=1.00 max=2.78'',
       ''B: min=1.00 max=4.00'',
       ''100%'' @ axisSeparator @ concat (map (\<lambda>m. utf8_EncodeRune (0x2800 + m)) [0, 0, 0, 160, 11, 49, 64, 0, 0, 1]),
       ''    '' @ axisSeparator @ concat (map (\<lambda>m. utf8_EncodeRune (0x2800 + m)) [0, 0, 160, 3, 0, 0, 113, 65, 0, 0]),
       '' 50%'' @ axisSeparator @ concat (map (\<lambda>m. utf8_EncodeRune (0x2800 + m)) [0, 112, 1, 0, 64, 0, 0, 49, 64, 0]),
       ''  0%'' @ axisSeparator @ concat (map (\<lambda>m. utf8_EncodeRune (0x2800 + m)) [240, 65, 0, 10, 0, 0, 0, 0, 24, 68]),
       ''Legend: '' @ utf8_EncodeRune 0x2801 @ '' A (solid)  '' @ utf8_EncodeRune 0x2801 @ '' B (dashed)'',
       []]" by (simp only: option.inject)
      have r: "ls ! 4 = ''100%'' @ axisSeparator @ concat (map (\<lambda>m. utf8_EncodeRune (0x2800 + m)) [0, 0, 0, 160, 11, 49, 64, 0, 0, 1])" unfolding ls by (rule row)
      show ?thesis
        using p(10) [rule_format, OF y] unfolding off r a
        apply (elim exE conjE)
        subgoal premises q for gutter cs
          using q(1,2,3) q(5) [rule_format, OF nc] by (intro conjI exI [of _ gutter] exI [of _ cs]) simp_all
        done
    qed
    done
  with a ne nc endToEnd_lines row show ?thesis by (intro conjI) (elim conjE | assumption)+
qed

subsection \<open>C5: the range of a constant series\<close>




subsection \<open>C10: drawLine terminates, and the work of a call is bounded\<close>




end
